theory Spec2Isabelle
  imports Main "HOL-Library.Word"
begin

section \<open>Positions and arrays\<close>

text \<open>
  The morphology module (\<^verbatim>\<open>_morph.cpp\<close>) works on the \<^verbatim>\<open>numpy::position\<close> and
  \<^verbatim>\<open>numpy::array\<close> classes of \<^verbatim>\<open>array.hpp\<close>. A position is a tuple of integer
  coordinates; an array is a dense row-major buffer described by its extents.
\<close>

type_synonym position = "int list"

text \<open>Modelled from the spec: \<^verbatim>\<open>position operator+\<close> of \<^verbatim>\<open>array.hpp\<close>, coordinatewise
  addition of two positions of the same dimensionality.\<close>

definition pos_add :: "position \<Rightarrow> position \<Rightarrow> position" where
  "pos_add a b = map2 (+) a b"

text \<open>Modelled from the spec: \<^verbatim>\<open>position operator-\<close> of \<^verbatim>\<open>array.hpp\<close>, coordinatewise
  subtraction.\<close>

definition pos_sub :: "position \<Rightarrow> position \<Rightarrow> position" where
  "pos_sub a b = map2 (-) a b"

text \<open>Modelled from the spec: the array classes of \<^verbatim>\<open>array.hpp\<close>, a dense buffer of one
  element type with its per-dimension extents (the shape); the strides are the row-major
  ones.\<close>

record 'a array =
  dims :: "nat list"
  data :: "'a list"

text \<open>Modelled from the spec: \<^verbatim>\<open>array_base::size\<close>, the number of elements.\<close>

definition size_of :: "'a array \<Rightarrow> nat" where
  "size_of a = prod_list (dims a)"

text \<open>Modelled from the spec: membership of a position in \<open>[0, extent_d)\<close> for every
  dimension \<open>d\<close>; a position of another dimensionality is not valid.\<close>

fun in_bounds :: "nat list \<Rightarrow> position \<Rightarrow> bool" where
  "in_bounds [] [] = True"
| "in_bounds (d # ds) (x # xs) = (0 \<le> x \<and> x < int d \<and> in_bounds ds xs)"
| "in_bounds _ _ = False"

text \<open>Modelled from the spec: \<^verbatim>\<open>array_base::validposition\<close>.\<close>

definition validposition :: "'a array \<Rightarrow> position \<Rightarrow> bool" where
  "validposition a p = in_bounds (dims a) p"

text \<open>Modelled from the spec: the row-major buffer offset of a position (the stride of a
  dimension is the product of the extents after it).\<close>

fun offset :: "nat list \<Rightarrow> position \<Rightarrow> nat" where
  "offset (d # ds) (x # xs) = nat x * prod_list ds + offset ds xs"
| "offset _ _ = 0"

text \<open>Modelled from the spec: \<^verbatim>\<open>array_base::at\<close>, indexed access, as a read and as a
  write. The source only calls it behind \<open>validposition\<close> or on an iterator's position.\<close>

definition at :: "'a array \<Rightarrow> position \<Rightarrow> 'a" where
  "at a p = data a ! offset (dims a) p"

definition set_at :: "'a array \<Rightarrow> position \<Rightarrow> 'a \<Rightarrow> 'a array" where
  "set_at a p v = a\<lparr>data := (data a)[offset (dims a) p := v]\<rparr>"

text \<open>Modelled from the spec: the positions an iterator visits, in linear (row-major)
  order, last coordinate fastest.\<close>

fun positions :: "nat list \<Rightarrow> position list" where
  "positions [] = [[]]"
| "positions (d # ds) = concat (map (\<lambda>i. map ((#) (int i)) (positions ds)) [0..<d])"

text \<open>Modelled from the spec: what an iterator from \<^verbatim>\<open>begin()\<close> yields, each element with
  its position (\<^verbatim>\<open>it.position()\<close>, \<^verbatim>\<open>*it\<close>).\<close>

definition iter :: "'a array \<Rightarrow> (position \<times> 'a) list" where
  "iter a = zip (positions (dims a)) (data a)"

text \<open>A freshly allocated array of a given shape with every element equal to \<open>v\<close>
  (\<^verbatim>\<open>PyArray_FromDims\<close> zero-fills; \<^verbatim>\<open>std::fill_n\<close> over the whole buffer).\<close>

definition filled :: "nat list \<Rightarrow> 'a \<Rightarrow> 'a array" where
  "filled ds v = \<lparr>dims = ds, data = replicate (prod_list ds) v\<rparr>"

text \<open>The buffer holds exactly one element per position.\<close>

definition wf_array :: "'a array \<Rightarrow> bool" where
  "wf_array a = (length (data a) = prod_list (dims a))"

subsection \<open>Structuring-element geometry\<close>

definition central_position :: "'a array \<Rightarrow> position" where
  "central_position a = map (\<lambda>d. int d div 2) (dims a)"

section \<open>Erosion\<close>

text \<open>
  The inner loop of \<^verbatim>\<open>erode\<close> for one result position \<open>rp\<close>: it scans the cells of
  \<open>Bc\<close> in order and stops with \<open>on = false\<close> at the first active cell whose neighbour is
  a valid position holding zero.
\<close>

fun erode_scan :: "'a::len word array \<Rightarrow> position \<Rightarrow> position \<Rightarrow> (position \<times> 'a word) list \<Rightarrow> bool" where
  "erode_scan array rp centre [] = True"
| "erode_scan array rp centre ((bp, bv) # rest) =
     (if bv \<noteq> 0 then
        (let npos = pos_sub (pos_add rp bp) centre in
         if validposition array npos \<and> at array npos = 0 then False
         else erode_scan array rp centre rest)
      else erode_scan array rp centre rest)"

text \<open>The outer loop: every position of \<open>res\<close>, in iterator order, receives the flag
  converted to the element type (\<^verbatim>\<open>*rpos = on\<close>).\<close>

definition erode :: "'a::len word array \<Rightarrow> 'a word array \<Rightarrow> 'a word array \<Rightarrow> 'a word array" where
  "erode res array Bc =
     fold (\<lambda>rp r. set_at r rp (of_bool (erode_scan array rp (central_position Bc) (iter Bc))))
       (positions (dims res)) res"

text \<open>\<^verbatim>\<open>py_erode\<close> allocates the zero-filled result of the subject's shape and runs the
  operator on it (the dispatch on the element type is the instantiation of \<open>'a\<close>).\<close>

definition py_erode :: "'a::len word array \<Rightarrow> 'a word array \<Rightarrow> 'a word array" where
  "py_erode array Bc = erode (filled (dims array) 0) array Bc"

section \<open>Dilation\<close>

text \<open>The body of the inner loop of \<^verbatim>\<open>dilate\<close> for the source at \<open>p\<close> with value \<open>v\<close> and
  one cell of \<open>Bc\<close>.\<close>

definition dilate_cell :: "position \<Rightarrow> 'a::len word \<Rightarrow> position \<Rightarrow> position \<times> 'a word \<Rightarrow> 'a word array \<Rightarrow> 'a word array" where
  "dilate_cell p v centre b res =
     (case b of (bp, bv) \<Rightarrow>
        if bv \<noteq> 0 then
          (let npos = pos_sub (pos_add p bp) centre in
           if validposition res npos then set_at res npos (v + bv) else res)
        else res)"

text \<open>The body of the outer loop: a zero source is skipped.\<close>

definition dilate_source :: "'a::len word array \<Rightarrow> position \<times> 'a word \<Rightarrow> 'a word array \<Rightarrow> 'a word array" where
  "dilate_source Bc s res =
     (case s of (p, v) \<Rightarrow>
        if v \<noteq> 0 then fold (dilate_cell p v (central_position Bc)) (iter Bc) res else res)"

text \<open>The outer loop runs \<open>N = res.size()\<close> times over the iterator of \<open>array\<close>.\<close>

definition dilate :: "'a::len word array \<Rightarrow> 'a word array \<Rightarrow> 'a word array \<Rightarrow> 'a word array" where
  "dilate res array Bc = fold (dilate_source Bc) (take (size_of res) (iter array)) res"

definition py_dilate :: "'a::len word array \<Rightarrow> 'a word array \<Rightarrow> 'a word array" where
  "py_dilate array Bc = dilate (filled (dims array) 0) array Bc"

section \<open>Watershed\<close>

subsection \<open>The element type\<close>

text \<open>
  \<^verbatim>\<open>cwatershed\<close> is instantiated at the signed and unsigned integer types of 8 to 64
  bits: an element is a word of that width, and the flag \<open>sg\<close> says whether the type is
  signed. It decides the comparison \<^verbatim>\<open>ncost < cost.at(npos)\<close>, the value of
  \<^verbatim>\<open>std::numeric_limits<BaseType>::max()\<close> and the conversion to \<^verbatim>\<open>int\<close> in the
  constructor call \<^verbatim>\<open>MarkerInfo(ncost, idx++, npos)\<close>.
\<close>

definition elem_less :: "bool \<Rightarrow> 'a::len word \<Rightarrow> 'a word \<Rightarrow> bool" where
  "elem_less sg a b = (if sg then a <s b else a < b)"

definition elem_max :: "bool \<Rightarrow> 'a::len word" where
  "elem_max sg = (if sg then word_of_int (2 ^ (LENGTH('a) - 1) - 1) else - 1)"

definition to_int :: "bool \<Rightarrow> 'a::len word \<Rightarrow> 32 word" where
  "to_int sg x = (if sg then scast x else ucast x)"

text \<open>The value an element stands for, as a mathematical integer.\<close>

definition elem_val :: "bool \<Rightarrow> 'a::len word \<Rightarrow> int" where
  "elem_val sg x = (if sg then sint x else uint x)"

subsection \<open>Queue entries and the queue\<close>

datatype MarkerInfo = MarkerInfo (cost: "32 word") (idx: "32 word") (pos: position)

text \<open>\<^verbatim>\<open>MarkerInfo::operator<\<close>: both fields are C \<^verbatim>\<open>int\<close>s, compared as signed.\<close>

definition MarkerInfo_less :: "MarkerInfo \<Rightarrow> MarkerInfo \<Rightarrow> bool" where
  "MarkerInfo_less a b =
     (if cost a = cost b then idx b <s idx a else cost b <s cost a)"

text \<open>
  \<^verbatim>\<open>std::priority_queue<MarkerInfo>\<close> by its contract: a collection of entries whose
  \<^verbatim>\<open>top()\<close> is an entry that is not \<^verbatim>\<open>operator<\<close> any other, and whose \<^verbatim>\<open>pop()\<close> removes
  it. \<open>top\<close> of an empty queue has no value (the loop tests \<^verbatim>\<open>empty()\<close> first).
\<close>

definition push :: "MarkerInfo \<Rightarrow> MarkerInfo list \<Rightarrow> MarkerInfo list" where
  "push e q = q @ [e]"

fun top :: "MarkerInfo list \<Rightarrow> MarkerInfo option" where
  "top [] = None"
| "top (e # q) = Some (fold (\<lambda>x best. if MarkerInfo_less best x then x else best) q e)"

definition pop :: "MarkerInfo \<Rightarrow> MarkerInfo list \<Rightarrow> MarkerInfo list" where
  "pop e q = remove1 e q"

subsection \<open>The flooding engine\<close>

text \<open>The variables of \<^verbatim>\<open>cwatershed\<close> that change: the result, the two scratch arrays,
  the queue and the insertion counter.\<close>

record 'a flood_state =
  s_res :: "'a array"
  s_cost :: "'a array"
  s_status :: "bool array"
  s_hqueue :: "MarkerInfo list"
  s_idx :: "32 word"

text \<open>The body of the initialisation loop, for one element of \<open>markers\<close>.\<close>

definition seed :: "bool \<Rightarrow> 'a::len word array \<Rightarrow> position \<times> 'a word \<Rightarrow> 'a word flood_state \<Rightarrow> 'a word flood_state" where
  "seed sg array m st =
     (case m of (mp, mv) \<Rightarrow>
        if mv \<noteq> 0 then
          st\<lparr>s_hqueue := push (MarkerInfo (to_int sg mv) (s_idx st) mp) (s_hqueue st),
             s_idx := s_idx st + 1,
             s_res := set_at (s_res st) mp mv,
             s_cost := set_at (s_cost st) mp (at array mp)\<rparr>
        else st)"

text \<open>The state at the head of the main loop: scratch arrays allocated and filled, every
  marker seeded.\<close>

definition init_state :: "bool \<Rightarrow> 'a::len word array \<Rightarrow> 'a word array \<Rightarrow> 'a word array \<Rightarrow> 'a word flood_state" where
  "init_state sg res array markers =
     fold (seed sg array) (take (size_of res) (iter markers))
       \<lparr>s_res = res,
        s_cost = filled (dims array) (elem_max sg),
        s_status = filled (dims array) False,
        s_hqueue = [],
        s_idx = 0\<rparr>"

text \<open>The body of the neighbour loop, for the popped position \<open>p\<close> and one cell of \<open>Bc\<close>.\<close>

definition visit :: "bool \<Rightarrow> 'a::len word array \<Rightarrow> position \<Rightarrow> position \<Rightarrow> position \<times> 'a word \<Rightarrow> 'a word flood_state \<Rightarrow> 'a word flood_state" where
  "visit sg array centre p b st =
     (case b of (bp, bv) \<Rightarrow>
        if bv \<noteq> 0 then
          (let npos = pos_sub (pos_add p bp) centre in
           if validposition (s_status st) npos \<and> \<not> at (s_status st) npos then
             (let ncost = at array npos in
              if elem_less sg ncost (at (s_cost st) npos) then
                st\<lparr>s_cost := set_at (s_cost st) npos ncost,
                   s_res := set_at (s_res st) npos (at (s_res st) p),
                   s_hqueue := push (MarkerInfo (to_int sg ncost) (s_idx st) npos) (s_hqueue st),
                   s_idx := s_idx st + 1\<rparr>
              else st)
           else st)
        else st)"

text \<open>The popped entry leaves the queue and its position is settled, before the scan.\<close>

definition settle :: "MarkerInfo \<Rightarrow> 'a flood_state \<Rightarrow> 'a flood_state" where
  "settle e st =
     st\<lparr>s_hqueue := pop e (s_hqueue st), s_status := set_at (s_status st) (pos e) True\<rparr>"

text \<open>One iteration of the main loop, \<open>e\<close> being the top of the queue.\<close>

definition expand :: "bool \<Rightarrow> 'a::len word array \<Rightarrow> 'a word array \<Rightarrow> MarkerInfo \<Rightarrow> 'a word flood_state \<Rightarrow> 'a word flood_state" where
  "expand sg array Bc e st =
     fold (visit sg array (central_position Bc) (pos e)) (iter Bc) (settle e st)"

text \<open>The main loop. It is a \<^verbatim>\<open>while\<close> loop with no bound of its own, so not returning
  is the value \<open>None\<close>.\<close>

partial_function (option) flood :: "bool \<Rightarrow> 'a::len word array \<Rightarrow> 'a word array \<Rightarrow> 'a word flood_state \<Rightarrow> 'a word flood_state option" where
  "flood sg array Bc st =
     (case top (s_hqueue st) of
        None \<Rightarrow> Some st
      | Some e \<Rightarrow> flood sg array Bc (expand sg array Bc e st))"

text \<open>The loop's unfolding equation serves as its code equation.\<close>

declare flood.simps [code]

definition cwatershed :: "bool \<Rightarrow> 'a::len word array \<Rightarrow> 'a word array \<Rightarrow> 'a word array \<Rightarrow> 'a word array \<Rightarrow> 'a word array option" where
  "cwatershed sg res array markers Bc =
     map_option s_res (flood sg array Bc (init_state sg res array markers))"

definition py_cwatershed :: "bool \<Rightarrow> 'a::len word array \<Rightarrow> 'a word array \<Rightarrow> 'a word array \<Rightarrow> 'a word array option" where
  "py_cwatershed sg array markers Bc = cwatershed sg (filled (dims array) 0) array markers Bc"

section \<open>Notions the properties are stated with\<close>

text \<open>
  The neighbours of \<open>p\<close> under the structuring element: for every active cell of \<open>Bc\<close>
  (a cell holding a nonzero value), in scan order, the position \<open>p + cell - centre\<close>
  together with the cell's value (its weight).
\<close>

definition active_neighbours :: "'a::len word array \<Rightarrow> position \<Rightarrow> (position \<times> 'a word) list" where
  "active_neighbours Bc p =
     map (\<lambda>bp. (pos_sub (pos_add p bp) (central_position Bc), at Bc bp))
       (filter (\<lambda>bp. at Bc bp \<noteq> 0) (positions (dims Bc)))"

text \<open>
  The writes of a dilation in scan order, as (target, value) pairs: for every position
  \<open>p\<close> of \<open>array\<close> holding a nonzero value and every neighbour \<open>n\<close> of \<open>p\<close> with weight \<open>w\<close>
  that is a valid position, the write of \<open>array.at(p) + w\<close> to \<open>n\<close>.
\<close>

definition scatter_writes :: "'a::len word array \<Rightarrow> 'a word array \<Rightarrow> (position \<times> 'a word) list" where
  "scatter_writes array Bc =
     concat (map (\<lambda>p. map (\<lambda>(n, w). (n, at array p + w))
                        (filter (\<lambda>(n, w). validposition array n) (active_neighbours Bc p)))
                 (filter (\<lambda>p. at array p \<noteq> 0) (positions (dims array))))"

text \<open>The marker positions (the seeds), in scan order.\<close>

definition seeds :: "'a::len word array \<Rightarrow> position list" where
  "seeds markers = filter (\<lambda>p. at markers p \<noteq> 0) (positions (dims markers))"

text \<open>The queue entries pushed for the positions \<open>ns\<close>, in that order: the priority of
  the entry for \<open>n\<close> is \<open>pr n\<close>, and the insertion indices count up from \<open>i\<close>.\<close>

fun entries :: "(position \<Rightarrow> 32 word) \<Rightarrow> 32 word \<Rightarrow> position list \<Rightarrow> MarkerInfo list" where
  "entries pr i [] = []"
| "entries pr i (n # ns) = MarkerInfo (pr n) i n # entries pr (i + 1) ns"

text \<open>The result and the scratch arrays are well formed and have the subject's shape, as
  \<^verbatim>\<open>cwatershed\<close> allocates them.\<close>

definition shaped :: "'a array \<Rightarrow> 'a flood_state \<Rightarrow> bool" where
  "shaped array st =
     (wf_array (s_res st) \<and> wf_array (s_cost st) \<and> wf_array (s_status st)
      \<and> dims (s_res st) = dims array \<and> dims (s_cost st) = dims array
      \<and> dims (s_status st) = dims array)"

text \<open>The test the neighbour loop makes on a neighbour \<open>n\<close>: a valid position, not settled,
  whose intensity is strictly below the cost recorded for it.\<close>

definition improving :: "bool \<Rightarrow> 'a::len word array \<Rightarrow> 'a word flood_state \<Rightarrow> position \<Rightarrow> bool" where
  "improving sg array st n =
     (validposition (s_status st) n \<and> \<not> at (s_status st) n
      \<and> elem_less sg (at array n) (at (s_cost st) n))"

text \<open>The neighbours of the popped position that pass the test, in scan order; the test
  is made with the popped position already settled.\<close>

definition improved :: "bool \<Rightarrow> 'a::len word array \<Rightarrow> 'a word array \<Rightarrow> MarkerInfo \<Rightarrow> 'a word flood_state \<Rightarrow> position list" where
  "improved sg array Bc e st =
     filter (improving sg array (settle e st)) (map fst (active_neighbours Bc (pos e)))"

text \<open>The state at the head of the main loop after \<open>k\<close> iterations (the state the loop
  ends with, once the queue is empty).\<close>

fun iterate :: "bool \<Rightarrow> 'a::len word array \<Rightarrow> 'a word array \<Rightarrow> nat \<Rightarrow> 'a word flood_state \<Rightarrow> 'a word flood_state" where
  "iterate sg array Bc 0 st = st"
| "iterate sg array Bc (Suc k) st =
     (case top (s_hqueue st) of
        None \<Rightarrow> st
      | Some e \<Rightarrow> iterate sg array Bc k (expand sg array Bc e st))"

text \<open>The positions whose cost can still improve, and the work left: a pop takes one
  entry out of the queue, and a push needs a position that can still improve.\<close>

definition pending :: "bool \<Rightarrow> 'a::len word array \<Rightarrow> 'a word flood_state \<Rightarrow> position set" where
  "pending sg array st =
     {n \<in> set (positions (dims array)). elem_less sg (at array n) (at (s_cost st) n)}"

definition work :: "bool \<Rightarrow> 'a::len word array \<Rightarrow> 'a word flood_state \<Rightarrow> nat" where
  "work sg array st = length (s_hqueue st) + 2 * card (pending sg array st)"

text \<open>A queue in push order: a list position further back means a larger insertion
  index, all below the counter \<open>m\<close>. \<open>push\<close> appends, so the list order is the order of
  the pushes as long as the counter does not wrap around.\<close>

definition in_push_order :: "nat \<Rightarrow> MarkerInfo list \<Rightarrow> bool" where
  "in_push_order m q =
     (sorted_wrt (\<lambda>a b. unat (idx a) < unat (idx b)) q \<and> (\<forall>e \<in> set q. unat (idx e) < m))"

text \<open>The counter has counted \<open>m\<close> pushes, which leave room for the positions still
  pending among the \<open>N\<close> positions of the array, and the queue is in push order.\<close>

definition counted :: "bool \<Rightarrow> 'a::len word array \<Rightarrow> 'a word flood_state \<Rightarrow> bool" where
  "counted sg array st =
     (\<exists>m. s_idx st = of_nat m
          \<and> m + card (pending sg array st) \<le> prod_list (dims array)
          \<and> in_push_order m (s_hqueue st))"

section \<open>Facts about positions and buffers\<close>

lemma length_positions: "length (positions ds) = prod_list ds"
proof (induction ds)
  case Nil
  show ?case by simp
next
  case (Cons d ds)
  have "length (concat (map (\<lambda>i. map ((#) (int i)) (positions ds)) [0..<d]))
        = sum_list (map (\<lambda>i. prod_list ds) [0..<d])"
    by (simp add: length_concat comp_def Cons.IH)
  also have "\<dots> = d * prod_list ds"
    by (simp add: sum_list_triv)
  finally show ?case by simp
qed

lemma set_positions: "set (positions ds) = {p. in_bounds ds p}"
proof (induction ds)
  case Nil
  show ?case
  proof (rule set_eqI)
    fix p :: position
    show "p \<in> set (positions []) \<longleftrightarrow> p \<in> {p. in_bounds [] p}"
      by (cases p) simp_all
  qed
next
  case (Cons d ds)
  show ?case
  proof (rule set_eqI)
    fix p :: position
    show "p \<in> set (positions (d # ds)) \<longleftrightarrow> p \<in> {p. in_bounds (d # ds) p}"
    proof (cases p)
      case Nil
      then show ?thesis by auto
    next
      case (Cons x xs)
      have "(\<exists>i<d. x = int i) \<longleftrightarrow> 0 \<le> x \<and> x < int d"
        by (metis nat_less_iff nat_int of_nat_0_le_iff of_nat_less_iff int_nat_eq)
      then show ?thesis
        using Cons Cons.IH by auto
    qed
  qed
qed

lemma in_bounds_length: "in_bounds ds p \<Longrightarrow> length p = length ds"
  by (induction ds p rule: in_bounds.induct) simp_all

lemma offset_less: "in_bounds ds p \<Longrightarrow> offset ds p < prod_list ds"
proof (induction ds p rule: in_bounds.induct)
  case 1
  show ?case by simp
next
  case (2 d ds x xs)
  then have x: "nat x < d" and o: "offset ds xs < prod_list ds"
    by auto
  have "nat x * prod_list ds + offset ds xs < nat x * prod_list ds + prod_list ds"
    using o by simp
  also have "\<dots> = Suc (nat x) * prod_list ds"
    by simp
  also have "\<dots> \<le> d * prod_list ds"
    using x by (intro mult_le_mono1) simp
  finally show ?case by simp
qed simp_all

lemma nth_concat_blocks:
  "\<forall>xs \<in> set xss. length xs = m \<Longrightarrow> i < length xss \<Longrightarrow> j < m
   \<Longrightarrow> concat xss ! (i * m + j) = xss ! i ! j"
proof (induction xss arbitrary: i)
  case Nil
  then show ?case by simp
next
  case (Cons ys xss)
  show ?case
  proof (cases i)
    case 0
    then show ?thesis using Cons.prems by (simp add: nth_append)
  next
    case (Suc k)
    have "concat xss ! (k * m + j) = xss ! k ! j"
      using Cons.IH[of k] Cons.prems Suc by simp
    moreover have "length ys = m"
      using Cons.prems by simp
    ultimately show ?thesis
      using Suc by (simp add: nth_append)
  qed
qed

lemma positions_nth_offset: "in_bounds ds p \<Longrightarrow> positions ds ! offset ds p = p"
proof (induction ds p rule: in_bounds.induct)
  case 1
  show ?case by simp
next
  case (2 d ds x xs)
  let ?xss = "map (\<lambda>i. map ((#) (int i)) (positions ds)) [0..<d]"
  from 2 have x: "0 \<le> x" "nat x < d" and b: "in_bounds ds xs"
    by auto
  have o: "offset ds xs < prod_list ds"
    using b by (rule offset_less)
  have "concat ?xss ! (nat x * prod_list ds + offset ds xs) = ?xss ! nat x ! offset ds xs"
    using x o by (intro nth_concat_blocks) (auto simp: length_positions)
  also have "\<dots> = int (nat x) # positions ds ! offset ds xs"
    using x o by (simp add: length_positions)
  also have "\<dots> = x # xs"
    using x "2.IH" b by simp
  finally show ?case by simp
qed simp_all

lemma offset_inj:
  assumes "in_bounds ds p" "in_bounds ds q" "offset ds p = offset ds q"
  shows "p = q"
  using assms positions_nth_offset by metis

lemma offset_positions_nth: "i < prod_list ds \<Longrightarrow> offset ds (positions ds ! i) = i"
proof (induction ds arbitrary: i)
  case Nil
  then show ?case by simp
next
  case (Cons d ds)
  let ?m = "prod_list ds"
  let ?xss = "map (\<lambda>i. map ((#) (int i)) (positions ds)) [0..<d]"
  from Cons.prems have lt: "i < d * ?m" by simp
  then have m: "0 < ?m" by (cases "?m = 0") simp_all
  have q: "i div ?m < d"
    using lt by (simp add: less_mult_imp_div_less)
  have r: "i mod ?m < ?m"
    using m by simp
  have "concat ?xss ! (i div ?m * ?m + i mod ?m) = ?xss ! (i div ?m) ! (i mod ?m)"
    using q r by (intro nth_concat_blocks) (auto simp: length_positions)
  then have "concat ?xss ! i = int (i div ?m) # positions ds ! (i mod ?m)"
    using q r by (simp add: length_positions)
  then have "offset (d # ds) (positions (d # ds) ! i) = i div ?m * ?m + i mod ?m"
    using Cons.IH[OF r] by simp
  then show ?case by simp
qed

lemma distinct_positions: "distinct (positions ds)"
  unfolding distinct_conv_nth
proof (intro allI impI)
  fix i j
  assume "i < length (positions ds)" "j < length (positions ds)" "i \<noteq> j"
  then show "positions ds ! i \<noteq> positions ds ! j"
    using offset_positions_nth [of i ds] offset_positions_nth [of j ds]
    by (auto simp: length_positions)
qed

subsection \<open>Reading and writing a well-formed array\<close>

lemma dims_set_at: "dims (set_at a p v) = dims a"
  by (simp add: set_at_def)

lemma wf_array_set_at: "wf_array (set_at a p v) = wf_array a"
  by (simp add: set_at_def wf_array_def)

lemma validposition_set_at: "validposition (set_at a p v) q = validposition a q"
  by (simp add: validposition_def dims_set_at)

lemma at_set_at_same:
  "wf_array a \<Longrightarrow> validposition a p \<Longrightarrow> at (set_at a p v) p = v"
  using offset_less [of "dims a" p]
  by (simp add: at_def set_at_def wf_array_def validposition_def)

lemma at_set_at_other:
  "validposition a p \<Longrightarrow> validposition a q \<Longrightarrow> q \<noteq> p \<Longrightarrow> at (set_at a p v) q = at a q"
proof -
  assume "validposition a p" "validposition a q" "q \<noteq> p"
  then have "offset (dims a) p \<noteq> offset (dims a) q"
    using offset_inj [of "dims a" p q] by (auto simp: validposition_def)
  then show ?thesis
    by (simp add: at_def set_at_def)
qed

lemma at_set_at:
  "wf_array a \<Longrightarrow> validposition a p \<Longrightarrow> validposition a q
   \<Longrightarrow> at (set_at a p v) q = (if q = p then v else at a q)"
  by (simp add: at_set_at_same at_set_at_other)

lemma wf_array_filled: "wf_array (filled ds v)"
  by (simp add: filled_def wf_array_def)

lemma dims_filled: "dims (filled ds v) = ds"
  by (simp add: filled_def)

lemma at_filled: "in_bounds ds p \<Longrightarrow> at (filled ds v) p = v"
  using offset_less [of ds p] by (simp add: filled_def at_def)

lemma iter_wf:
  assumes "wf_array a"
  shows "iter a = map (\<lambda>p. (p, at a p)) (positions (dims a))"
proof (rule nth_equalityI)
  show "length (iter a) = length (map (\<lambda>p. (p, at a p)) (positions (dims a)))"
    using assms by (simp add: iter_def wf_array_def length_positions)
next
  fix i
  assume "i < length (iter a)"
  then have i: "i < prod_list (dims a)"
    by (simp add: iter_def length_positions)
  then show "iter a ! i = map (\<lambda>p. (p, at a p)) (positions (dims a)) ! i"
    using assms
    by (simp add: iter_def wf_array_def length_positions at_def offset_positions_nth)
qed

lemma take_iter_wf:
  "wf_array a \<Longrightarrow> take (prod_list (dims a)) (iter a) = iter a"
  by (simp add: iter_def wf_array_def length_positions)

lemma filter_eq_single: "distinct xs \<Longrightarrow> x \<in> set xs \<Longrightarrow> filter (\<lambda>y. y = x) xs = [x]"
proof (induction xs)
  case Nil
  then show ?case by simp
next
  case (Cons a xs)
  show ?case
  proof (cases "a = x")
    case True
    then have "x \<notin> set xs"
      using Cons.prems(1) by simp
    then have "filter (\<lambda>y. y = x) xs = []"
      by (auto simp: filter_empty_conv)
    then show ?thesis
      using True by simp
  next
    case False
    then show ?thesis
      using Cons by simp
  qed
qed

subsection \<open>A sequence of writes\<close>

lemma dims_fold_set_at:
  "dims (fold (\<lambda>w r. set_at r (fst w) (snd w)) ws r) = dims r"
  by (induction ws arbitrary: r) (simp_all add: dims_set_at)

lemma wf_array_fold_set_at:
  "wf_array (fold (\<lambda>w r. set_at r (fst w) (snd w)) ws r) = wf_array r"
  by (induction ws arbitrary: r) (simp_all add: wf_array_set_at)

text \<open>The last write to a position decides its value; a position no write targets keeps
  its value.\<close>

lemma at_fold_set_at:
  assumes "wf_array r" "\<forall>w \<in> set ws. validposition r (fst w)" "validposition r q"
  shows "at (fold (\<lambda>w r. set_at r (fst w) (snd w)) ws r) q =
         (let hits = filter (\<lambda>w. fst w = q) ws in if hits = [] then at r q else snd (last hits))"
  using assms
proof (induction ws arbitrary: r)
  case Nil
  show ?case by simp
next
  case (Cons w ws)
  let ?r = "set_at r (fst w) (snd w)"
  have wf: "wf_array ?r"
    using Cons.prems(1) by (simp add: wf_array_set_at)
  have v: "\<forall>w \<in> set ws. validposition ?r (fst w)" "validposition ?r q"
    using Cons.prems by (simp_all add: validposition_set_at)
  have w: "validposition r (fst w)"
    using Cons.prems(2) by simp
  have here: "at ?r q = (if q = fst w then snd w else at r q)"
    using Cons.prems(1) w Cons.prems(3) by (rule at_set_at)
  show ?case
    using Cons.IH [OF wf v] here by (auto simp: Let_def)
qed

section \<open>Erosion\<close>

lemma erode_scan_iff:
  "erode_scan array rp centre bs \<longleftrightarrow>
     (\<forall>(bp, bv) \<in> set bs. bv \<noteq> 0 \<longrightarrow>
        \<not> (validposition array (pos_sub (pos_add rp bp) centre)
           \<and> at array (pos_sub (pos_add rp bp) centre) = 0))"
  by (induction array rp centre bs rule: erode_scan.induct) (auto simp: Let_def)

lemma erode_as_writes:
  "erode res array Bc =
     fold (\<lambda>w r. set_at r (fst w) (snd w))
       (map (\<lambda>rp. (rp, of_bool (erode_scan array rp (central_position Bc) (iter Bc))))
          (positions (dims res))) res"
  by (simp add: erode_def fold_map comp_def)

lemma dims_erode: "dims (erode res array Bc) = dims res"
  by (simp add: erode_as_writes dims_fold_set_at)

lemma wf_array_erode: "wf_array (erode res array Bc) = wf_array res"
  by (simp add: erode_as_writes wf_array_fold_set_at)

lemma at_erode:
  assumes "wf_array res" "validposition res p"
  shows "at (erode res array Bc) p
         = of_bool (erode_scan array p (central_position Bc) (iter Bc))"
proof -
  let ?ws = "map (\<lambda>rp. (rp, of_bool (erode_scan array rp (central_position Bc) (iter Bc)) :: 'a word))
               (positions (dims res))"
  have valid: "\<forall>w \<in> set ?ws. validposition res (fst w)"
    by (auto simp: set_positions validposition_def)
  have hits: "filter (\<lambda>w. fst w = p) ?ws
              = map (\<lambda>rp. (rp, of_bool (erode_scan array rp (central_position Bc) (iter Bc))))
                  (filter (\<lambda>rp. rp = p) (positions (dims res)))"
    by (simp add: filter_map comp_def)
  have one: "filter (\<lambda>rp. rp = p) (positions (dims res)) = [p]"
    using assms(2) distinct_positions
    by (intro filter_eq_single) (simp_all add: set_positions validposition_def)
  show ?thesis
    unfolding erode_as_writes
    using at_fold_set_at [OF assms(1) valid assms(2)] by (simp add: hits one)
qed

lemma iter_active_neighbours:
  assumes "wf_array Bc"
  shows "map (\<lambda>(bp, bv). (pos_sub (pos_add p bp) (central_position Bc), bv))
           (filter (\<lambda>(bp, bv). bv \<noteq> 0) (iter Bc)) = active_neighbours Bc p"
  by (simp add: iter_wf [OF assms] active_neighbours_def filter_map comp_def)

lemma erode_scan_neighbours:
  assumes "wf_array Bc"
  shows "erode_scan array p (central_position Bc) (iter Bc) \<longleftrightarrow>
         (\<forall>(n, w) \<in> set (active_neighbours Bc p). validposition array n \<longrightarrow> at array n \<noteq> 0)"
proof -
  let ?f = "\<lambda>b. (pos_sub (pos_add p (fst b)) (central_position Bc), snd b)"
  have eq: "set (active_neighbours Bc p) = ?f ` {b \<in> set (iter Bc). snd b \<noteq> 0}"
    unfolding iter_active_neighbours [OF assms, symmetric] by (auto simp: case_prod_unfold)
  have "(\<forall>(n, w) \<in> set (active_neighbours Bc p). validposition array n \<longrightarrow> at array n \<noteq> 0)
        \<longleftrightarrow> (\<forall>b \<in> {b \<in> set (iter Bc). snd b \<noteq> 0}.
               validposition array (fst (?f b)) \<longrightarrow> at array (fst (?f b)) \<noteq> 0)"
    unfolding eq by (simp only: ball_simps case_prod_unfold)
  also have "\<dots> \<longleftrightarrow> erode_scan array p (central_position Bc) (iter Bc)"
    unfolding erode_scan_iff by (simp add: case_prod_unfold) fastforce
  finally show ?thesis by simp
qed

text \<open>
  C5. For every position \<open>p\<close> of the result, \<open>erode\<close> writes 1 exactly when every
  neighbour of \<open>p\<close> under an active cell of \<open>Bc\<close> that is a valid position of \<open>array\<close>
  holds a nonzero value, and 0 otherwise. A neighbour outside the array imposes no
  constraint: only valid neighbours holding zero turn a position off.
\<close>

theorem erode_result:
  assumes "wf_array res" "wf_array Bc" "validposition res p"
  shows "at (erode res array Bc) p =
         (if \<forall>(n, w) \<in> set (active_neighbours Bc p). validposition array n \<longrightarrow> at array n \<noteq> 0
          then 1 else 0)"
  using at_erode [OF assms(1,3), of array Bc] erode_scan_neighbours [OF assms(2), of array p]
  by simp

text \<open>
  The subject \<open>[[1,1,1],[1,1,1],[1,0,1]]\<close> under the plus-shaped element: the corner
  \<open>(0,0)\<close> has two neighbours outside the array and stays on; the centre \<open>(1,1)\<close> is
  adjacent to the zero and goes off.
\<close>

theorem erode_result_witness:
  "wf_array (filled [3, 3] (0 :: 8 word))
   \<and> wf_array \<lparr>dims = [3, 3], data = [0, 1, 0, 1, 1, 1, 0, 1, 0 :: 8 word]\<rparr>
   \<and> validposition (filled [3, 3] (0 :: 8 word)) [0, 0]
   \<and> validposition (filled [3, 3] (0 :: 8 word)) [1, 1]
   \<and> \<not> validposition \<lparr>dims = [3, 3], data = [1, 1, 1, 1, 1, 1, 1, 0, 1 :: 8 word]\<rparr> [-1, 0]
   \<and> at (erode (filled [3, 3] 0)
            \<lparr>dims = [3, 3], data = [1, 1, 1, 1, 1, 1, 1, 0, 1 :: 8 word]\<rparr>
            \<lparr>dims = [3, 3], data = [0, 1, 0, 1, 1, 1, 0, 1, 0]\<rparr>) [0, 0] = 1
   \<and> at (erode (filled [3, 3] 0)
            \<lparr>dims = [3, 3], data = [1, 1, 1, 1, 1, 1, 1, 0, 1 :: 8 word]\<rparr>
            \<lparr>dims = [3, 3], data = [0, 1, 0, 1, 1, 1, 0, 1, 0]\<rparr>) [1, 1] = 0"
proof -
  let ?R = "filled [3, 3] (0 :: 8 word)"
  let ?A = "\<lparr>dims = [3, 3], data = [1, 1, 1, 1, 1, 1, 1, 0, 1 :: 8 word]\<rparr>"
  let ?B = "\<lparr>dims = [3, 3], data = [0, 1, 0, 1, 1, 1, 0, 1, 0 :: 8 word]\<rparr>"
  have r: "wf_array ?R" by (rule wf_array_filled)
  have b: "wf_array ?B" by (simp add: wf_array_def)
  have p: "validposition ?R [0, 0]" by (simp add: validposition_def filled_def)
  have q: "validposition ?R [1, 1]" by (simp add: validposition_def filled_def)
  have out: "\<not> validposition ?A [-1, 0]" by (simp add: validposition_def)
  have "at (erode ?R ?A ?B) [0, 0] =
        (if \<forall>(n, w) \<in> set (active_neighbours ?B [0, 0]). validposition ?A n \<longrightarrow> at ?A n \<noteq> 0
         then 1 else 0)"
    by (rule erode_result [OF r b p])
  also have "\<dots> = 1" by code_simp
  finally have on: "at (erode ?R ?A ?B) [0, 0] = 1" .
  have "at (erode ?R ?A ?B) [1, 1] =
        (if \<forall>(n, w) \<in> set (active_neighbours ?B [1, 1]). validposition ?A n \<longrightarrow> at ?A n \<noteq> 0
         then 1 else 0)"
    by (rule erode_result [OF r b q])
  also have "\<dots> = 0" by code_simp
  finally have off: "at (erode ?R ?A ?B) [1, 1] = 0" .
  show ?thesis
    using r b p q out on off by simp
qed

lemma data_nth_at:
  assumes "i < prod_list (dims a)"
  shows "data a ! i = at a (positions (dims a) ! i)"
  using assms by (simp add: at_def offset_positions_nth)

text \<open>
  C10. Every element of the array \<open>erode\<close> leaves behind is 0 or 1, whatever the
  magnitudes of the subject's elements: each element is the on/off flag converted to the
  element type.
\<close>

theorem erode_binary:
  assumes "wf_array res"
  shows "set (data (erode res array Bc)) \<subseteq> {0, 1}"
proof
  fix x
  assume "x \<in> set (data (erode res array Bc))"
  then obtain i where i: "i < length (data (erode res array Bc))"
    and x: "x = data (erode res array Bc) ! i"
    by (auto simp: in_set_conv_nth)
  have len: "i < prod_list (dims res)"
    using i assms wf_array_erode [of res array Bc] by (simp add: wf_array_def dims_erode)
  let ?p = "positions (dims res) ! i"
  have "?p \<in> set (positions (dims res))"
    using len by (simp add: length_positions)
  then have valid: "validposition res ?p"
    by (simp add: set_positions validposition_def)
  have "x = at (erode res array Bc) ?p"
    using x data_nth_at [of i "erode res array Bc"] len by (simp add: dims_erode)
  then have "x = of_bool (erode_scan array ?p (central_position Bc) (iter Bc))"
    using at_erode [OF assms valid] by simp
  then show "x \<in> {0, 1}"
    by (cases "erode_scan array ?p (central_position Bc) (iter Bc)") simp_all
qed

text \<open>A subject holding 200 and 7: the eroded array holds only 0 and 1.\<close>

theorem erode_binary_witness:
  "wf_array (filled [3] (0 :: 8 word))
   \<and> set (data (erode (filled [3] 0) \<lparr>dims = [3], data = [200, 7, 0 :: 8 word]\<rparr>
                  \<lparr>dims = [3], data = [1, 1, 1]\<rparr>)) \<subseteq> {0, 1}
   \<and> data (erode (filled [3] 0) \<lparr>dims = [3], data = [200, 7, 0 :: 8 word]\<rparr>
             \<lparr>dims = [3], data = [1, 1, 1]\<rparr>) = [1, 0, 0]"
proof -
  have r: "wf_array (filled [3] (0 :: 8 word))" by (rule wf_array_filled)
  have "data (erode (filled [3] 0) \<lparr>dims = [3], data = [200, 7, 0 :: 8 word]\<rparr>
             \<lparr>dims = [3], data = [1, 1, 1]\<rparr>) = [1, 0, 0]"
    by code_simp
  then show ?thesis
    using r erode_binary [OF r, of "\<lparr>dims = [3], data = [200, 7, 0]\<rparr>" "\<lparr>dims = [3], data = [1, 1, 1]\<rparr>"]
    by simp
qed

section \<open>Dilation\<close>

lemma fold_dilate_cell:
  "fold (dilate_cell p v c) bs r =
     fold (\<lambda>w r. set_at r (fst w) (snd w))
       (map (\<lambda>(bp, bv). (pos_sub (pos_add p bp) c, v + bv))
          (filter (\<lambda>(bp, bv). bv \<noteq> 0 \<and> in_bounds (dims r) (pos_sub (pos_add p bp) c)) bs)) r"
proof (induction bs arbitrary: r)
  case Nil
  show ?case by simp
next
  case (Cons b bs)
  obtain bp bv where b: "b = (bp, bv)" by (cases b)
  have d: "dims (dilate_cell p v c b r) = dims r"
    by (simp add: dilate_cell_def b Let_def dims_set_at)
  show ?case
    using Cons.IH [of "dilate_cell p v c b r"]
    by (simp add: d) (simp add: dilate_cell_def b Let_def validposition_def)
qed

text \<open>The writes one source makes, for a result of extents \<open>ds\<close>.\<close>

lemma dilate_source_writes:
  "dilate_source Bc s r =
     fold (\<lambda>w r. set_at r (fst w) (snd w))
       (if snd s \<noteq> 0 then
          map (\<lambda>(bp, bv). (pos_sub (pos_add (fst s) bp) (central_position Bc), snd s + bv))
            (filter (\<lambda>(bp, bv). bv \<noteq> 0
                 \<and> in_bounds (dims r) (pos_sub (pos_add (fst s) bp) (central_position Bc))) (iter Bc))
        else []) r"
  by (cases s) (simp add: dilate_source_def fold_dilate_cell)

lemma fold_fold_concat:
  assumes "\<And>s r. f s r = fold g (W (dims r) s) r"
    and "\<And>w r. dims (g w r) = dims r"
  shows "fold f ss r = fold g (concat (map (W (dims r)) ss)) r"
proof (induction ss arbitrary: r)
  case Nil
  show ?case by simp
next
  case (Cons s ss)
  have "dims (fold g ws r) = dims r" for ws
    by (induction ws arbitrary: r) (simp_all add: assms(2))
  then have d: "dims (f s r) = dims r"
    by (simp add: assms(1))
  show ?case
    using Cons.IH [of "f s r"] by (simp add: d) (simp add: assms(1))
qed

lemma concat_map_if:
  "concat (map (\<lambda>x. if P x then F x else []) xs) = concat (map F (filter P xs))"
  by (induction xs) simp_all

lemma dilate_as_writes:
  assumes "wf_array array" "wf_array Bc" "dims res = dims array"
  shows "dilate res array Bc
         = fold (\<lambda>w r. set_at r (fst w) (snd w)) (scatter_writes array Bc) res"
proof -
  let ?c = "central_position Bc"
  let ?W = "\<lambda>ds s. if snd s \<noteq> 0 then
          map (\<lambda>(bp, bv). (pos_sub (pos_add (fst s) bp) ?c, snd s + bv))
            (filter (\<lambda>(bp, bv). bv \<noteq> 0 \<and> in_bounds ds (pos_sub (pos_add (fst s) bp) ?c)) (iter Bc))
        else []"
  have src: "take (size_of res) (iter array) = map (\<lambda>p. (p, at array p)) (positions (dims array))"
    using take_iter_wf [OF assms(1)] iter_wf [OF assms(1)] assms(3) by (simp add: size_of_def)
  have one: "?W (dims array) (p, at array p) =
             (if at array p \<noteq> 0 then
                map (\<lambda>(n, w). (n, at array p + w))
                  (filter (\<lambda>(n, w). validposition array n) (active_neighbours Bc p))
              else [])" for p
    unfolding iter_active_neighbours [OF assms(2), symmetric]
    by (simp add: filter_map comp_def case_prod_unfold validposition_def conj_commute)
  have "dilate res array Bc
        = fold (\<lambda>w r. set_at r (fst w) (snd w))
            (concat (map (?W (dims res)) (take (size_of res) (iter array)))) res"
    unfolding dilate_def
    by (rule fold_fold_concat) (simp_all add: dilate_source_writes dims_set_at)
  also have "concat (map (?W (dims res)) (take (size_of res) (iter array)))
             = concat (map (\<lambda>p. ?W (dims array) (p, at array p)) (positions (dims array)))"
    unfolding src assms(3) by (simp add: comp_def)
  also have "\<dots> = scatter_writes array Bc"
    unfolding one scatter_writes_def by (rule concat_map_if)
  finally show ?thesis .
qed

lemma scatter_writes_valid:
  "\<forall>w \<in> set (scatter_writes array Bc). validposition array (fst w)"
  by (auto simp: scatter_writes_def)

text \<open>
  C6. The value \<open>dilate\<close> leaves at a valid position \<open>n\<close> is the value of the last write to
  \<open>n\<close> in scan order, the writes being \<open>array.at(p) + w\<close> to \<open>p + o\<close> for every source \<open>p\<close>
  holding a nonzero value and every active offset \<open>o\<close> of weight \<open>w\<close> whose target is
  valid: later writes overwrite earlier ones, there is no maximum and no sum. A
  position no write targets keeps its initial value, which is zero in the array
  \<open>py_dilate\<close> allocates, and a source holding zero makes no write.
\<close>

theorem dilate_last_write:
  assumes "wf_array res" "wf_array array" "wf_array Bc" "dims res = dims array"
    and "validposition res n"
  shows "at (dilate res array Bc) n =
           (let hits = filter (\<lambda>w. fst w = n) (scatter_writes array Bc)
            in if hits = [] then at res n else snd (last hits))
         \<and> at (py_dilate array Bc) n =
           (let hits = filter (\<lambda>w. fst w = n) (scatter_writes array Bc)
            in if hits = [] then 0 else snd (last hits))"
proof -
  have general: "at (dilate r array Bc) n =
           (let hits = filter (\<lambda>w. fst w = n) (scatter_writes array Bc)
            in if hits = [] then at r n else snd (last hits))"
    if r: "wf_array r" "dims r = dims array" for r :: "'a word array"
  proof -
    have v: "\<forall>w \<in> set (scatter_writes array Bc). validposition r (fst w)"
      using scatter_writes_valid [of array Bc] r(2) by (simp add: validposition_def)
    have n: "validposition r n"
      using assms(4,5) r(2) by (simp add: validposition_def)
    show ?thesis
      unfolding dilate_as_writes [OF assms(2,3) r(2)]
      by (rule at_fold_set_at [OF r(1) v n])
  qed
  have zero: "at (filled (dims array) (0 :: 'a word)) n = 0"
    using assms(4,5) by (intro at_filled) (simp add: validposition_def)
  show ?thesis
    using general [OF assms(1,4)]
      general [OF wf_array_filled [of "dims array" 0]] zero
    by (simp add: py_dilate_def dims_filled Let_def)
qed

text \<open>
  The subject \<open>[5, 1]\<close> under the element \<open>[1, 1, 1]\<close>: position 0 is written 6 by the
  source at 0 and then 2 by the source at 1, and holds 2 at the end; with no source,
  every position keeps its zero.
\<close>

theorem dilate_last_write_witness:
  "wf_array (filled [2] (0 :: 8 word))
   \<and> wf_array \<lparr>dims = [2], data = [5, 1 :: 8 word]\<rparr>
   \<and> wf_array \<lparr>dims = [3], data = [1, 1, 1 :: 8 word]\<rparr>
   \<and> dims (filled [2] (0 :: 8 word)) = dims \<lparr>dims = [2], data = [5, 1 :: 8 word]\<rparr>
   \<and> validposition (filled [2] (0 :: 8 word)) [0]
   \<and> filter (\<lambda>w. fst w = [0])
        (scatter_writes \<lparr>dims = [2], data = [5, 1 :: 8 word]\<rparr> \<lparr>dims = [3], data = [1, 1, 1]\<rparr>)
      = [([0], 6), ([0], 2)]
   \<and> at (py_dilate \<lparr>dims = [2], data = [5, 1 :: 8 word]\<rparr> \<lparr>dims = [3], data = [1, 1, 1]\<rparr>) [0] = 2
   \<and> at (py_dilate \<lparr>dims = [2], data = [0, 0 :: 8 word]\<rparr> \<lparr>dims = [3], data = [1, 1, 1]\<rparr>) [0] = 0"
proof -
  let ?R = "filled [2] (0 :: 8 word)"
  let ?A = "\<lparr>dims = [2], data = [5, 1 :: 8 word]\<rparr>"
  let ?Z = "\<lparr>dims = [2], data = [0, 0 :: 8 word]\<rparr>"
  let ?B = "\<lparr>dims = [3], data = [1, 1, 1 :: 8 word]\<rparr>"
  have r: "wf_array ?R" by (rule wf_array_filled)
  have a: "wf_array ?A" by (simp add: wf_array_def)
  have z: "wf_array ?Z" by (simp add: wf_array_def)
  have b: "wf_array ?B" by (simp add: wf_array_def)
  have d: "dims ?R = dims ?A" by (simp add: dims_filled)
  have dz: "dims ?R = dims ?Z" by (simp add: dims_filled)
  have n: "validposition ?R [0]" by (simp add: validposition_def dims_filled)
  have hits: "filter (\<lambda>w. fst w = [0]) (scatter_writes ?A ?B) = [([0], 6), ([0], 2)]"
    by code_simp
  have none: "filter (\<lambda>w. fst w = [0]) (scatter_writes ?Z ?B) = []"
    by code_simp
  have "at (py_dilate ?A ?B) [0] = 2"
    using dilate_last_write [OF r a b d n] by (simp add: hits)
  moreover have "at (py_dilate ?Z ?B) [0] = 0"
    using dilate_last_write [OF r z b dz n] by (simp add: none)
  ultimately show ?thesis
    using r a b d n hits by simp
qed

subsection \<open>Dilation is not extensive\<close>





section \<open>The queue\<close>

text \<open>An entry comes out before another when its priority is smaller, or the priorities
  are equal and its insertion index is not larger (both read as signed \<^verbatim>\<open>int\<close>s).\<close>

lemma not_MarkerInfo_less_iff:
  "\<not> MarkerInfo_less b x \<longleftrightarrow>
     sint (cost b) < sint (cost x) \<or> (cost b = cost x \<and> sint (idx b) \<le> sint (idx x))"
proof (cases "cost b = cost x")
  case True
  then show ?thesis
    by (simp add: MarkerInfo_less_def word_sless_alt not_less)
next
  case False
  then have "sint (cost b) \<noteq> sint (cost x)"
    using signed_word_eqI [of "cost b" "cost x"] by blast
  then show ?thesis
    using False by (auto simp: MarkerInfo_less_def word_sless_alt)
qed

lemma MarkerInfo_less_total:
  "MarkerInfo_less b x \<Longrightarrow> \<not> MarkerInfo_less x b"
  by (auto simp: MarkerInfo_less_def word_sless_alt split: if_splits)

lemma not_MarkerInfo_less_trans:
  "\<not> MarkerInfo_less a b \<Longrightarrow> \<not> MarkerInfo_less b c \<Longrightarrow> \<not> MarkerInfo_less a c"
  unfolding not_MarkerInfo_less_iff by auto

lemma fold_best:
  fixes q :: "MarkerInfo list"
  defines "sel \<equiv> \<lambda>x best. if MarkerInfo_less best x then x else best"
  shows "fold sel q e \<in> set (e # q) \<and> (\<forall>x \<in> set (e # q). \<not> MarkerInfo_less (fold sel q e) x)"
proof (induction q arbitrary: e)
  case Nil
  show ?case
    by (simp add: MarkerInfo_less_def)
next
  case (Cons y q)
  let ?e = "sel y e"
  let ?b = "fold sel q ?e"
  from Cons [of ?e] have mem: "?b \<in> set (?e # q)"
    and least: "\<forall>x \<in> set (?e # q). \<not> MarkerInfo_less ?b x"
    by simp_all
  have e': "\<not> MarkerInfo_less ?b ?e"
    using least by simp
  have both: "\<not> MarkerInfo_less ?e e \<and> \<not> MarkerInfo_less ?e y"
    using MarkerInfo_less_total [of e y]
    by (auto simp: sel_def MarkerInfo_less_def)
  have "\<not> MarkerInfo_less ?b e" "\<not> MarkerInfo_less ?b y"
    using e' both not_MarkerInfo_less_trans by blast+
  moreover have "?e \<in> {e, y}"
    by (simp add: sel_def)
  ultimately show ?case
    using mem least by auto
qed

lemma top_Some:
  assumes "top q = Some e"
  shows "e \<in> set q \<and> (\<forall>x \<in> set q. \<not> MarkerInfo_less e x)"
proof (cases q)
  case Nil
  then show ?thesis using assms by simp
next
  case (Cons a q')
  then show ?thesis
    using assms fold_best [of q' a] by auto
qed

lemma top_None_iff: "top q = None \<longleftrightarrow> q = []"
  by (cases q) simp_all

lemma sint_to_int: "sint (to_int sg x) = signed_take_bit 31 (elem_val sg x)"
  by (simp add: to_int_def elem_val_def signed_scast_eq signed_ucast_eq)

text \<open>Inside the range of \<^verbatim>\<open>int\<close> the conversion keeps the value.\<close>

lemma to_int_in_range:
  "- (2 ^ 31) \<le> elem_val sg x \<Longrightarrow> elem_val sg x < 2 ^ 31 \<Longrightarrow> sint (to_int sg x) = elem_val sg x"
  unfolding sint_to_int by (rule signed_take_bit_int_eq_self)

text \<open>
  C9. The queue compares the priorities as \<^verbatim>\<open>int\<close>s: of two entries pushed for the
  element values \<open>a\<close> and \<open>b\<close>, the order is that of the values wrapped to 32 bits
  (\<open>signed_take_bit 31\<close>), then of the insertion indices, whatever the element type.
  Both pushes of \<^verbatim>\<open>cwatershed\<close>, for a seed and for a neighbour, store the element value
  converted to \<^verbatim>\<open>int\<close> and the counter, itself an \<^verbatim>\<open>int\<close>.
  For 64-bit elements the wrapped order differs from the order of the elements: \<open>1\<close> is
  less than \<open>2 ^ 32\<close>, which converts to priority 0 and comes out first; in a run with
  the markers \<open>2 ^ 32\<close> and \<open>1\<close> the seed labelled \<open>2 ^ 32\<close> is expanded first and takes the
  position between them.
\<close>

theorem queue_order_by_converted_int:
  "(MarkerInfo_less (MarkerInfo (to_int sg a) i p) (MarkerInfo (to_int sg b) j q) \<longleftrightarrow>
      signed_take_bit 31 (elem_val sg b) < signed_take_bit 31 (elem_val sg a)
      \<or> (signed_take_bit 31 (elem_val sg a) = signed_take_bit 31 (elem_val sg b) \<and> sint j < sint i))
   \<and> s_hqueue (seed sg array (mp, mv) st) =
       (if mv \<noteq> 0 then s_hqueue st @ [MarkerInfo (to_int sg mv) (s_idx st) mp] else s_hqueue st)
   \<and> s_hqueue (visit sg array c p (bp, bv) st) =
       (if bv \<noteq> 0 \<and> improving sg array st (pos_sub (pos_add p bp) c)
        then s_hqueue st @ [MarkerInfo (to_int sg (at array (pos_sub (pos_add p bp) c)))
                              (s_idx st) (pos_sub (pos_add p bp) c)]
        else s_hqueue st)
   \<and> elem_less False (1 :: 64 word) (2 ^ 32)
   \<and> top [MarkerInfo (to_int False (1 :: 64 word)) 0 [2],
           MarkerInfo (to_int False (2 ^ 32 :: 64 word)) 1 [0]] = Some (MarkerInfo 0 1 [0])
   \<and> py_cwatershed False \<lparr>dims = [3], data = [0, 0, 0 :: 64 word]\<rparr>
        \<lparr>dims = [3], data = [2 ^ 32, 0, 1]\<rparr> \<lparr>dims = [3], data = [1, 1, 1]\<rparr>
       = Some \<lparr>dims = [3], data = [2 ^ 32, 2 ^ 32, 1]\<rparr>"
proof -
  have "to_int sg a = to_int sg b \<longleftrightarrow>
        signed_take_bit 31 (elem_val sg a) = signed_take_bit 31 (elem_val sg b)"
    unfolding sint_to_int [symmetric] by (rule word_eq_iff_signed)
  then have order: "MarkerInfo_less (MarkerInfo (to_int sg a) i p) (MarkerInfo (to_int sg b) j q) \<longleftrightarrow>
      signed_take_bit 31 (elem_val sg b) < signed_take_bit 31 (elem_val sg a)
      \<or> (signed_take_bit 31 (elem_val sg a) = signed_take_bit 31 (elem_val sg b) \<and> sint j < sint i)"
    by (auto simp: MarkerInfo_less_def word_sless_alt sint_to_int)
  have push: "s_hqueue (seed sg array (mp, mv) st) =
       (if mv \<noteq> 0 then s_hqueue st @ [MarkerInfo (to_int sg mv) (s_idx st) mp] else s_hqueue st)"
    by (simp add: seed_def push_def)
  have push': "s_hqueue (visit sg array c p (bp, bv) st) =
       (if bv \<noteq> 0 \<and> improving sg array st (pos_sub (pos_add p bp) c)
        then s_hqueue st @ [MarkerInfo (to_int sg (at array (pos_sub (pos_add p bp) c)))
                              (s_idx st) (pos_sub (pos_add p bp) c)]
        else s_hqueue st)"
    by (simp add: visit_def improving_def Let_def push_def)
  have less: "elem_less False (1 :: 64 word) (2 ^ 32)"
    by code_simp
  have first: "top [MarkerInfo (to_int False (1 :: 64 word)) 0 [2],
           MarkerInfo (to_int False (2 ^ 32 :: 64 word)) 1 [0]] = Some (MarkerInfo 0 1 [0])"
    by code_simp
  have run: "py_cwatershed False \<lparr>dims = [3], data = [0, 0, 0 :: 64 word]\<rparr>
        \<lparr>dims = [3], data = [2 ^ 32, 0, 1]\<rparr> \<lparr>dims = [3], data = [1, 1, 1]\<rparr>
       = Some \<lparr>dims = [3], data = [2 ^ 32, 2 ^ 32, 1]\<rparr>"
    by code_simp
  show ?thesis
    using order push push' less first run by blast
qed

section \<open>Watershed: initialisation\<close>

lemma at_fold_set_at_fun:
  assumes "wf_array r" "\<forall>p \<in> set ps. validposition r p" "validposition r q"
  shows "at (fold (\<lambda>w r. set_at r (fst w) (snd w)) (map (\<lambda>p. (p, g p)) ps) r) q
         = (if q \<in> set ps then g q else at r q)"
  using assms
proof (induction ps arbitrary: r)
  case Nil
  show ?case by simp
next
  case (Cons p ps)
  let ?r = "set_at r p (g p)"
  have "wf_array ?r" "\<forall>p \<in> set ps. validposition ?r p" "validposition ?r q"
    using Cons.prems by (simp_all add: wf_array_set_at validposition_set_at)
  then have "at (fold (\<lambda>w r. set_at r (fst w) (snd w)) (map (\<lambda>p. (p, g p)) ps) ?r) q
             = (if q \<in> set ps then g q else at ?r q)"
    by (rule Cons.IH)
  moreover have "at ?r q = (if q = p then g p else at r q)"
    using Cons.prems by (intro at_set_at) simp_all
  ultimately show ?case by auto
qed

lemma map_pos_entries: "map pos (entries pr i ns) = ns"
  by (induction ns arbitrary: i) simp_all

lemma fold_seed_hqueue:
  "s_hqueue (fold (seed sg array) (map (\<lambda>p. (p, f p)) ps) st)
   = s_hqueue st @ entries (\<lambda>p. to_int sg (f p)) (s_idx st) (filter (\<lambda>p. f p \<noteq> 0) ps)"
  by (induction ps arbitrary: st) (simp_all add: seed_def push_def)

lemma fold_seed_idx:
  "s_idx (fold (seed sg array) (map (\<lambda>p. (p, f p)) ps) st)
   = s_idx st + of_nat (length (filter (\<lambda>p. f p \<noteq> 0) ps))"
  by (induction ps arbitrary: st) (simp_all add: seed_def)

lemma fold_seed_status:
  "s_status (fold (seed sg array) ms st) = s_status st"
  by (induction ms arbitrary: st) (simp_all add: seed_def split: prod.splits)

lemma fold_seed_res:
  "s_res (fold (seed sg array) (map (\<lambda>p. (p, f p)) ps) st)
   = fold (\<lambda>w r. set_at r (fst w) (snd w))
       (map (\<lambda>p. (p, f p)) (filter (\<lambda>p. f p \<noteq> 0) ps)) (s_res st)"
  by (induction ps arbitrary: st) (simp_all add: seed_def)

lemma fold_seed_cost:
  "s_cost (fold (seed sg array) (map (\<lambda>p. (p, f p)) ps) st)
   = fold (\<lambda>w r. set_at r (fst w) (snd w))
       (map (\<lambda>p. (p, at array p)) (filter (\<lambda>p. f p \<noteq> 0) ps)) (s_cost st)"
  by (induction ps arbitrary: st) (simp_all add: seed_def)

lemma init_state_fold:
  assumes "wf_array markers" "dims res = dims array" "dims markers = dims array"
  shows "init_state sg res array markers =
     fold (seed sg array) (map (\<lambda>p. (p, at markers p)) (positions (dims markers)))
       \<lparr>s_res = res,
        s_cost = filled (dims array) (elem_max sg),
        s_status = filled (dims array) False,
        s_hqueue = [],
        s_idx = 0\<rparr>"
  using take_iter_wf [OF assms(1)] iter_wf [OF assms(1)] assms(2,3)
  by (simp add: init_state_def size_of_def)

lemma seeds_iff:
  "dims markers = dims array \<Longrightarrow> validposition array p
   \<Longrightarrow> p \<in> set (seeds markers) \<longleftrightarrow> at markers p \<noteq> 0"
  by (simp add: seeds_def set_positions validposition_def)

lemma init_hqueue:
  assumes "wf_array markers" "dims res = dims array" "dims markers = dims array"
  shows "s_hqueue (init_state sg res array markers)
         = entries (\<lambda>p. to_int sg (at markers p)) 0 (seeds markers)"
  unfolding init_state_fold [OF assms] fold_seed_hqueue by (simp add: seeds_def)

lemma init_cost_at:
  assumes "wf_array markers" "dims res = dims array" "dims markers = dims array"
    and "validposition array p"
  shows "at (s_cost (init_state sg res array markers)) p
         = (if at markers p \<noteq> 0 then at array p else elem_max sg)"
proof -
  let ?c = "filled (dims array) (elem_max sg :: 'a word)"
  have vs: "\<forall>n \<in> set (seeds markers). validposition ?c n"
    using assms(3) by (simp add: seeds_def set_positions validposition_def dims_filled)
  have vp: "validposition ?c p"
    using assms(4) by (simp add: validposition_def dims_filled)
  have "at (s_cost (init_state sg res array markers)) p
        = (if p \<in> set (seeds markers) then at array p else at ?c p)"
    unfolding init_state_fold [OF assms(1,2,3)] fold_seed_cost
    using at_fold_set_at_fun [OF wf_array_filled vs vp, of "at array"]
    by (simp add: seeds_def)
  moreover have "at ?c p = elem_max sg"
    using assms(4) by (intro at_filled) (simp add: validposition_def)
  ultimately show ?thesis
    using seeds_iff [OF assms(3,4)] by simp
qed

lemma init_res_at:
  assumes "wf_array res" "wf_array markers" "dims res = dims array" "dims markers = dims array"
    and "validposition array p"
  shows "at (s_res (init_state sg res array markers)) p
         = (if at markers p \<noteq> 0 then at markers p else at res p)"
proof -
  have vs: "\<forall>n \<in> set (seeds markers). validposition res n"
    using assms(3,4) by (simp add: seeds_def set_positions validposition_def)
  have vp: "validposition res p"
    using assms(3,5) by (simp add: validposition_def)
  have "at (s_res (init_state sg res array markers)) p
        = (if p \<in> set (seeds markers) then at markers p else at res p)"
    unfolding init_state_fold [OF assms(2,3,4)] fold_seed_res
    using at_fold_set_at_fun [OF assms(1) vs vp, of "at markers"]
    by (simp add: seeds_def)
  then show ?thesis
    using seeds_iff [OF assms(4,5)] by simp
qed

text \<open>
  A 64-bit marker outside the range of \<^verbatim>\<open>int\<close>: the seed labelled \<open>2 ^ 32\<close> is pushed with
  the priority 0, which is not the marker value.
\<close>

theorem init_priority_counterexample:
  "s_hqueue (init_state False (filled [2] 0) \<lparr>dims = [2], data = [5, 3 :: 64 word]\<rparr>
        \<lparr>dims = [2], data = [4294967296, 0]\<rparr>) = [MarkerInfo 0 0 [0]]
   \<and> elem_val False (at \<lparr>dims = [2], data = [4294967296, 0 :: 64 word]\<rparr> [0]) = 4294967296
   \<and> sint (cost (MarkerInfo 0 0 [0])) = 0
   \<and> sint (cost (MarkerInfo 0 0 [0]))
       \<noteq> elem_val False (at \<lparr>dims = [2], data = [4294967296, 0 :: 64 word]\<rparr> [0])"
  by code_simp

text \<open>
  C3, amended. After the initialisation loop the queue holds one entry per marker
  position, in scan order with the insertion indices 0, 1, ...; the priority of the
  entry for \<open>p\<close> is the marker value \<open>markers.at(p)\<close> converted to \<^verbatim>\<open>int\<close> (not the
  intensity \<open>array.at(p)\<close>): it is the marker value whenever that lies in the range of
  \<^verbatim>\<open>int\<close>, and the value wrapped to 32 bits otherwise. At a marker position the cost is
  the intensity \<open>array.at(p)\<close> and the result is \<open>markers.at(p)\<close>; at every other position
  nothing was pushed, the cost is still the maximum of the type and the result is
  untouched. No position is settled.
\<close>

theorem init_state_seeds:
  assumes "wf_array res" "wf_array markers"
    and "dims res = dims array" "dims markers = dims array"
  shows "s_hqueue (init_state sg res array markers)
           = entries (\<lambda>p. to_int sg (at markers p)) 0 (seeds markers)
         \<and> s_idx (init_state sg res array markers) = of_nat (length (seeds markers))
         \<and> s_status (init_state sg res array markers) = filled (dims array) False
         \<and> (\<forall>p. validposition array p \<longrightarrow>
               at (s_cost (init_state sg res array markers)) p
               = (if at markers p \<noteq> 0 then at array p else elem_max sg))
         \<and> (\<forall>p. validposition array p \<longrightarrow>
               at (s_res (init_state sg res array markers)) p
               = (if at markers p \<noteq> 0 then at markers p else at res p))
         \<and> (\<forall>p. - (2 ^ 31) \<le> elem_val sg (at markers p) \<and> elem_val sg (at markers p) < 2 ^ 31
               \<longrightarrow> sint (to_int sg (at markers p)) = elem_val sg (at markers p))
         \<and> (\<forall>p. sint (to_int sg (at markers p)) = signed_take_bit 31 (elem_val sg (at markers p)))"
proof -
  note init = init_state_fold [OF assms(2,3,4), of sg]
  have "s_idx (init_state sg res array markers) = of_nat (length (seeds markers))"
    unfolding init fold_seed_idx by (simp add: seeds_def)
  moreover have "s_status (init_state sg res array markers) = filled (dims array) False"
    unfolding init fold_seed_status by simp
  ultimately have state: "s_hqueue (init_state sg res array markers)
           = entries (\<lambda>p. to_int sg (at markers p)) 0 (seeds markers)
         \<and> s_idx (init_state sg res array markers) = of_nat (length (seeds markers))
         \<and> s_status (init_state sg res array markers) = filled (dims array) False
         \<and> (\<forall>p. validposition array p \<longrightarrow>
               at (s_cost (init_state sg res array markers)) p
               = (if at markers p \<noteq> 0 then at array p else elem_max sg))
         \<and> (\<forall>p. validposition array p \<longrightarrow>
               at (s_res (init_state sg res array markers)) p
               = (if at markers p \<noteq> 0 then at markers p else at res p))"
    using init_hqueue [OF assms(2,3,4), of sg] init_cost_at [OF assms(2,3,4), of _ sg]
      init_res_at [OF assms, of _ sg]
    by simp
  have kept: "\<forall>p. - (2 ^ 31) \<le> elem_val sg (at markers p) \<and> elem_val sg (at markers p) < 2 ^ 31
               \<longrightarrow> sint (to_int sg (at markers p)) = elem_val sg (at markers p)"
    using to_int_in_range [of sg] by blast
  have wrapped: "\<forall>p. sint (to_int sg (at markers p)) = signed_take_bit 31 (elem_val sg (at markers p))"
    using sint_to_int [of sg] by blast
  show ?thesis
    using state kept wrapped by blast
qed

text \<open>
  The intensities \<open>[5, 3, 6, 2, 7]\<close> with the markers \<open>[1, 0, 0, 2, 0]\<close>: the two entries
  have the priorities 1 and 2, the labels, while the costs of the two seeds are 5 and 2,
  the intensities; position 1 holds the maximum 255 and the initial zero.
\<close>

theorem init_state_seeds_witness:
  "wf_array (filled [5] (0 :: 8 word))
   \<and> wf_array \<lparr>dims = [5], data = [1, 0, 0, 2, 0 :: 8 word]\<rparr>
   \<and> dims (filled [5] (0 :: 8 word)) = dims \<lparr>dims = [5], data = [5, 3, 6, 2, 7 :: 8 word]\<rparr>
   \<and> dims \<lparr>dims = [5], data = [1, 0, 0, 2, 0 :: 8 word]\<rparr>
       = dims \<lparr>dims = [5], data = [5, 3, 6, 2, 7 :: 8 word]\<rparr>
   \<and> s_hqueue (init_state False (filled [5] 0) \<lparr>dims = [5], data = [5, 3, 6, 2, 7 :: 8 word]\<rparr>
        \<lparr>dims = [5], data = [1, 0, 0, 2, 0]\<rparr>) = [MarkerInfo 1 0 [0], MarkerInfo 2 1 [3]]
   \<and> at (s_cost (init_state False (filled [5] 0) \<lparr>dims = [5], data = [5, 3, 6, 2, 7 :: 8 word]\<rparr>
        \<lparr>dims = [5], data = [1, 0, 0, 2, 0]\<rparr>)) [0] = 5
   \<and> at (s_res (init_state False (filled [5] 0) \<lparr>dims = [5], data = [5, 3, 6, 2, 7 :: 8 word]\<rparr>
        \<lparr>dims = [5], data = [1, 0, 0, 2, 0]\<rparr>)) [3] = 2
   \<and> at (s_cost (init_state False (filled [5] 0) \<lparr>dims = [5], data = [5, 3, 6, 2, 7 :: 8 word]\<rparr>
        \<lparr>dims = [5], data = [1, 0, 0, 2, 0]\<rparr>)) [1] = 255
   \<and> at (s_res (init_state False (filled [5] 0) \<lparr>dims = [5], data = [5, 3, 6, 2, 7 :: 8 word]\<rparr>
        \<lparr>dims = [5], data = [1, 0, 0, 2, 0]\<rparr>)) [1] = 0"
proof -
  let ?R = "filled [5] (0 :: 8 word)"
  let ?A = "\<lparr>dims = [5], data = [5, 3, 6, 2, 7 :: 8 word]\<rparr>"
  let ?M = "\<lparr>dims = [5], data = [1, 0, 0, 2, 0 :: 8 word]\<rparr>"
  have r: "wf_array ?R" by (rule wf_array_filled)
  have m: "wf_array ?M" by (simp add: wf_array_def)
  have dr: "dims ?R = dims ?A" by (simp add: dims_filled)
  have dm: "dims ?M = dims ?A" by simp
  note inst = init_state_seeds [OF r m dr dm, of False]
  have v: "validposition ?A [0]" "validposition ?A [1]" "validposition ?A [3]"
    by (simp_all add: validposition_def)
  have e: "entries (\<lambda>p. to_int False (at ?M p)) 0 (seeds ?M) = [MarkerInfo 1 0 [0], MarkerInfo 2 1 [3]]"
    by code_simp
  have vals: "at ?M [0] = 1" "at ?M [1] = 0" "at ?M [3] = 2" "at ?A [0] = 5" "at ?A [3] = 2"
    "at ?R [1] = 0" "elem_max False = (255 :: 8 word)"
    by code_simp+
  show ?thesis
    using r m dr dm inst v e vals by simp
qed

section \<open>Watershed: one iteration of the main loop\<close>

lemma elem_less_irrefl: "\<not> elem_less sg a a"
  by (simp add: elem_less_def)

lemma neighbour_inj:
  assumes "length bp = length p" "length bq = length p" "length c = length p"
    and "pos_sub (pos_add p bp) c = pos_sub (pos_add p bq) c"
  shows "bp = bq"
proof (rule nth_equalityI)
  show "length bp = length bq"
    using assms by simp
next
  fix i
  assume i: "i < length bp"
  have "pos_sub (pos_add p bp) c ! i = pos_sub (pos_add p bq) c ! i"
    using assms(4) by simp
  then show "bp ! i = bq ! i"
    using i assms(1,2,3) by (simp add: pos_sub_def pos_add_def)
qed

lemma visit_inactive: "visit sg array c p (bp, 0) st = st"
  by (simp add: visit_def)

lemma visit_not_improving:
  "\<not> improving sg array st (pos_sub (pos_add p bp) c) \<Longrightarrow> visit sg array c p (bp, bv) st = st"
  by (auto simp: visit_def improving_def Let_def)

lemma visit_improving:
  "bv \<noteq> 0 \<Longrightarrow> improving sg array st (pos_sub (pos_add p bp) c) \<Longrightarrow>
   visit sg array c p (bp, bv) st =
     st\<lparr>s_cost := set_at (s_cost st) (pos_sub (pos_add p bp) c) (at array (pos_sub (pos_add p bp) c)),
        s_res := set_at (s_res st) (pos_sub (pos_add p bp) c) (at (s_res st) p),
        s_hqueue := s_hqueue st @ [MarkerInfo (to_int sg (at array (pos_sub (pos_add p bp) c)))
                                     (s_idx st) (pos_sub (pos_add p bp) c)],
        s_idx := s_idx st + 1\<rparr>"
  by (simp add: visit_def improving_def Let_def push_def)

text \<open>The neighbour loop over the cells \<open>bps\<close>, whose targets are pairwise distinct, from a
  state in which \<open>p\<close> is settled: the improving targets, tested in the state before the
  loop, are updated and pushed in order.\<close>

lemma fold_visit:
  fixes st :: "'a::len word flood_state"
  assumes "shaped array st" "validposition array p" "at (s_status st) p"
    and "distinct (map (\<lambda>bp. pos_sub (pos_add p bp) c) bps)"
  shows "fold (visit sg array c p) (map (\<lambda>bp. (bp, f bp)) bps) st =
     st\<lparr>s_cost := fold (\<lambda>w r. set_at r (fst w) (snd w))
          (map (\<lambda>n. (n, at array n))
             (filter (improving sg array st)
                (map (\<lambda>bp. pos_sub (pos_add p bp) c) (filter (\<lambda>bp. f bp \<noteq> 0) bps)))) (s_cost st),
        s_res := fold (\<lambda>w r. set_at r (fst w) (snd w))
          (map (\<lambda>n. (n, at (s_res st) p))
             (filter (improving sg array st)
                (map (\<lambda>bp. pos_sub (pos_add p bp) c) (filter (\<lambda>bp. f bp \<noteq> 0) bps)))) (s_res st),
        s_hqueue := s_hqueue st @ entries (\<lambda>n. to_int sg (at array n)) (s_idx st)
             (filter (improving sg array st)
                (map (\<lambda>bp. pos_sub (pos_add p bp) c) (filter (\<lambda>bp. f bp \<noteq> 0) bps))),
        s_idx := s_idx st + of_nat (length
             (filter (improving sg array st)
                (map (\<lambda>bp. pos_sub (pos_add p bp) c) (filter (\<lambda>bp. f bp \<noteq> 0) bps))))\<rparr>"
  using assms(1,3,4)
proof (induction bps arbitrary: st)
  case Nil
  show ?case by simp
next
  case (Cons bp bps)
  let ?n = "pos_sub (pos_add p bp) c"
  let ?tg = "\<lambda>bp. pos_sub (pos_add p bp) c"
  have dist: "distinct (map ?tg bps)" and fresh: "?n \<notin> set (map ?tg bps)"
    using Cons.prems(3) by simp_all
  show ?case
  proof (cases "f bp \<noteq> 0 \<and> improving sg array st ?n")
    case False
    then have same: "visit sg array c p (bp, f bp) st = st"
      using visit_inactive [of sg array c p bp st] visit_not_improving [of sg array st p bp c "f bp"]
      by auto
    show ?thesis
      using Cons.IH [OF Cons.prems(1,2) dist] False by (auto simp: same)
  next
    case True
    let ?st = "visit sg array c p (bp, f bp) st"
    have st': "?st = st\<lparr>s_cost := set_at (s_cost st) ?n (at array ?n),
        s_res := set_at (s_res st) ?n (at (s_res st) p),
        s_hqueue := s_hqueue st @ [MarkerInfo (to_int sg (at array ?n)) (s_idx st) ?n],
        s_idx := s_idx st + 1\<rparr>"
      using True by (intro visit_improving) simp_all
    have n_valid: "validposition array ?n" and n_open: "\<not> at (s_status st) ?n"
      using True Cons.prems(1) by (simp_all add: improving_def shaped_def validposition_def)
    have np: "?n \<noteq> p"
      using n_open Cons.prems(2) by auto
    have sh: "shaped array ?st"
      using Cons.prems(1) by (simp add: st' shaped_def wf_array_set_at dims_set_at)
    have settled: "at (s_status ?st) p"
      using Cons.prems(2) by (simp add: st')
    have res_p: "at (s_res ?st) p = at (s_res st) p"
      using Cons.prems(1) n_valid assms(2) np
      by (simp add: st' shaped_def validposition_def at_set_at_other)
    have imp: "improving sg array ?st m = improving sg array st m" if "m \<noteq> ?n" for m
      using Cons.prems(1) n_valid that
      by (auto simp: st' improving_def shaped_def validposition_def at_set_at_other)
    have "filter (improving sg array ?st) (map ?tg (filter (\<lambda>bp. f bp \<noteq> 0) bps))
          = filter (improving sg array st) (map ?tg (filter (\<lambda>bp. f bp \<noteq> 0) bps))"
    proof (intro filter_cong refl imp)
      fix m
      assume "m \<in> set (map ?tg (filter (\<lambda>bp. f bp \<noteq> 0) bps))"
      then have "m \<in> set (map ?tg bps)"
        by auto
      then show "m \<noteq> ?n"
        using fresh by blast
    qed
    then show ?thesis
      using Cons.IH [OF sh settled dist] True
      by (simp add: res_p) (simp add: st' add.assoc)
  qed
qed

lemma shaped_settle: "shaped array st \<Longrightarrow> shaped array (settle e st)"
  by (simp add: shaped_def settle_def wf_array_set_at dims_set_at)

lemma distinct_neighbours:
  assumes "length (dims Bc) = length (dims array)" "validposition array p"
  shows "distinct (map (\<lambda>bp. pos_sub (pos_add p bp) (central_position Bc)) (positions (dims Bc)))"
proof -
  have lp: "length p = length (dims Bc)"
    using assms in_bounds_length [of "dims array" p] by (simp add: validposition_def)
  have "inj_on (\<lambda>bp. pos_sub (pos_add p bp) (central_position Bc)) (set (positions (dims Bc)))"
  proof (rule inj_onI)
    fix bp bq
    assume "bp \<in> set (positions (dims Bc))" "bq \<in> set (positions (dims Bc))"
      and eq: "pos_sub (pos_add p bp) (central_position Bc) = pos_sub (pos_add p bq) (central_position Bc)"
    then have "length bp = length p" "length bq = length p"
      using lp in_bounds_length [of "dims Bc"] by (simp_all add: set_positions)
    moreover have "length (central_position Bc) = length p"
      using lp by (simp add: central_position_def)
    ultimately show "bp = bq"
      using eq by (rule neighbour_inj)
  qed
  then show ?thesis
    using distinct_positions by (simp add: distinct_map)
qed

lemma expand_closed:
  fixes st :: "'a::len word flood_state"
  assumes "shaped array st" "wf_array Bc" "length (dims Bc) = length (dims array)"
    and "validposition array (pos e)"
  shows "expand sg array Bc e st =
     (settle e st)\<lparr>
        s_cost := fold (\<lambda>w r. set_at r (fst w) (snd w))
          (map (\<lambda>n. (n, at array n)) (improved sg array Bc e st)) (s_cost st),
        s_res := fold (\<lambda>w r. set_at r (fst w) (snd w))
          (map (\<lambda>n. (n, at (s_res st) (pos e))) (improved sg array Bc e st)) (s_res st),
        s_hqueue := remove1 e (s_hqueue st)
          @ entries (\<lambda>n. to_int sg (at array n)) (s_idx st) (improved sg array Bc e st),
        s_idx := s_idx st + of_nat (length (improved sg array Bc e st))\<rparr>"
proof -
  let ?c = "central_position Bc"
  let ?p = "pos e"
  have sh: "shaped array (settle e st)"
    using assms(1) by (rule shaped_settle)
  have settled: "at (s_status (settle e st)) ?p"
    using assms(1,4) by (simp add: settle_def shaped_def validposition_def at_set_at_same)
  have dist: "distinct (map (\<lambda>bp. pos_sub (pos_add ?p bp) ?c) (positions (dims Bc)))"
    using assms(3,4) by (rule distinct_neighbours)
  have ns: "filter (improving sg array (settle e st))
              (map (\<lambda>bp. pos_sub (pos_add ?p bp) ?c)
                 (filter (\<lambda>bp. at Bc bp \<noteq> 0) (positions (dims Bc))))
            = improved sg array Bc e st"
    by (simp add: improved_def active_neighbours_def comp_def)
  have "expand sg array Bc e st
        = fold (visit sg array ?c ?p) (map (\<lambda>bp. (bp, at Bc bp)) (positions (dims Bc))) (settle e st)"
    by (simp add: expand_def iter_wf [OF assms(2)])
  also note fold_visit [OF sh assms(4) settled dist, of sg "at Bc"]
  finally show ?thesis
    unfolding ns by (simp add: settle_def pop_def)
qed

text \<open>
  A 64-bit intensity outside the range of \<^verbatim>\<open>int\<close>: the neighbour holding \<open>2 ^ 32 + 7\<close> is
  pushed with the priority 7, which is not its intensity.
\<close>

theorem expand_priority_counterexample:
  "improved False \<lparr>dims = [2], data = [0, 4294967303 :: 64 word]\<rparr>
      \<lparr>dims = [3], data = [1, 1, 1]\<rparr> (MarkerInfo 1 0 [0])
      (init_state False (filled [2] 0) \<lparr>dims = [2], data = [0, 4294967303 :: 64 word]\<rparr>
         \<lparr>dims = [2], data = [1, 0]\<rparr>) = [[1]]
   \<and> s_hqueue (expand False \<lparr>dims = [2], data = [0, 4294967303 :: 64 word]\<rparr>
        \<lparr>dims = [3], data = [1, 1, 1]\<rparr> (MarkerInfo 1 0 [0])
        (init_state False (filled [2] 0) \<lparr>dims = [2], data = [0, 4294967303 :: 64 word]\<rparr>
           \<lparr>dims = [2], data = [1, 0]\<rparr>)) = [MarkerInfo 7 1 [1]]
   \<and> elem_val False (at \<lparr>dims = [2], data = [0, 4294967303 :: 64 word]\<rparr> [1]) = 4294967303
   \<and> sint (cost (MarkerInfo 7 1 [1])) = 7
   \<and> sint (cost (MarkerInfo 7 1 [1]))
       \<noteq> elem_val False (at \<lparr>dims = [2], data = [0, 4294967303 :: 64 word]\<rparr> [1])"
  by code_simp

text \<open>
  C1, amended. One iteration of the main loop, for the popped entry \<open>e\<close> at position \<open>p\<close>.
  The neighbours of \<open>p\<close> under the active cells of \<open>Bc\<close> that are valid, not settled (\<open>p\<close>
  itself being settled by now) and whose intensity is strictly below the recorded cost
  are the \<open>improved\<close> positions. For each of them the cost becomes the intensity, the
  result becomes the result at \<open>p\<close>, and an entry (intensity converted to \<^verbatim>\<open>int\<close>, next
  insertion index, position) joins the queue, in scan order; the priority is the
  intensity whenever that lies in the range of \<^verbatim>\<open>int\<close>, and the intensity wrapped to 32
  bits otherwise. For every other position (not a neighbour, invalid, settled, or with
  an intensity not below its cost) cost and result are unchanged and nothing is pushed;
  the status changes at \<open>p\<close> only.
\<close>

theorem expand_neighbours:
  fixes st :: "'a::len word flood_state"
  assumes "shaped array st" "wf_array Bc" "length (dims Bc) = length (dims array)"
    and "validposition array (pos e)"
  shows "s_hqueue (expand sg array Bc e st)
           = remove1 e (s_hqueue st)
             @ entries (\<lambda>n. to_int sg (at array n)) (s_idx st) (improved sg array Bc e st)
         \<and> s_idx (expand sg array Bc e st) = s_idx st + of_nat (length (improved sg array Bc e st))
         \<and> s_status (expand sg array Bc e st) = set_at (s_status st) (pos e) True
         \<and> (\<forall>n. validposition array n \<longrightarrow>
               at (s_cost (expand sg array Bc e st)) n
               = (if n \<in> set (improved sg array Bc e st) then at array n else at (s_cost st) n))
         \<and> (\<forall>n. validposition array n \<longrightarrow>
               at (s_res (expand sg array Bc e st)) n
               = (if n \<in> set (improved sg array Bc e st) then at (s_res st) (pos e)
                  else at (s_res st) n))
         \<and> (\<forall>n. - (2 ^ 31) \<le> elem_val sg (at array n) \<and> elem_val sg (at array n) < 2 ^ 31
               \<longrightarrow> sint (to_int sg (at array n)) = elem_val sg (at array n))
         \<and> (\<forall>n. sint (to_int sg (at array n)) = signed_take_bit 31 (elem_val sg (at array n)))"
proof -
  note closed = expand_closed [OF assms, of sg]
  have valid: "\<forall>n \<in> set (improved sg array Bc e st). validposition array n"
    using assms(1)
    by (auto simp: improved_def improving_def settle_def shaped_def validposition_def dims_set_at)
  have c: "at (s_cost (expand sg array Bc e st)) n
           = (if n \<in> set (improved sg array Bc e st) then at array n else at (s_cost st) n)"
    if n: "validposition array n" for n
  proof -
    have "wf_array (s_cost st)"
      and "\<forall>m \<in> set (improved sg array Bc e st). validposition (s_cost st) m"
      and "validposition (s_cost st) n"
      using assms(1) valid n by (simp_all add: shaped_def validposition_def)
    then show ?thesis
      unfolding closed using at_fold_set_at_fun [of "s_cost st" _ n "at array"] by simp
  qed
  have r: "at (s_res (expand sg array Bc e st)) n
           = (if n \<in> set (improved sg array Bc e st) then at (s_res st) (pos e) else at (s_res st) n)"
    if n: "validposition array n" for n
  proof -
    have "wf_array (s_res st)"
      and "\<forall>m \<in> set (improved sg array Bc e st). validposition (s_res st) m"
      and "validposition (s_res st) n"
      using assms(1) valid n by (simp_all add: shaped_def validposition_def)
    then show ?thesis
      unfolding closed
      using at_fold_set_at_fun [of "s_res st" _ n "\<lambda>_. at (s_res st) (pos e)"] by simp
  qed
  have "s_hqueue (expand sg array Bc e st)
           = remove1 e (s_hqueue st)
             @ entries (\<lambda>n. to_int sg (at array n)) (s_idx st) (improved sg array Bc e st)"
    and "s_idx (expand sg array Bc e st) = s_idx st + of_nat (length (improved sg array Bc e st))"
    and "s_status (expand sg array Bc e st) = set_at (s_status st) (pos e) True"
    unfolding closed by (simp_all add: settle_def)
  then show ?thesis
    using c r to_int_in_range [of sg] sint_to_int [of sg] by blast
qed

text \<open>
  The first iteration on the intensities \<open>[5, 3, 6, 2, 7]\<close> with the markers
  \<open>[1, 0, 0, 2, 0]\<close>: the seed at 0 is popped; its left neighbour is outside the array,
  it is settled itself, and its right neighbour 1 improves from 255 to 3, takes the
  label 1 and is pushed with priority 3 and index 2. Position 2 is untouched.
\<close>

theorem expand_neighbours_witness:
  "shaped \<lparr>dims = [5], data = [5, 3, 6, 2, 7 :: 8 word]\<rparr>
     (init_state False (filled [5] 0) \<lparr>dims = [5], data = [5, 3, 6, 2, 7 :: 8 word]\<rparr>
        \<lparr>dims = [5], data = [1, 0, 0, 2, 0]\<rparr>)
   \<and> wf_array \<lparr>dims = [3], data = [1, 1, 1 :: 8 word]\<rparr>
   \<and> length (dims \<lparr>dims = [3], data = [1, 1, 1 :: 8 word]\<rparr>)
       = length (dims \<lparr>dims = [5], data = [5, 3, 6, 2, 7 :: 8 word]\<rparr>)
   \<and> validposition \<lparr>dims = [5], data = [5, 3, 6, 2, 7 :: 8 word]\<rparr> (pos (MarkerInfo 1 0 [0]))
   \<and> improved False \<lparr>dims = [5], data = [5, 3, 6, 2, 7 :: 8 word]\<rparr>
        \<lparr>dims = [3], data = [1, 1, 1]\<rparr> (MarkerInfo 1 0 [0])
        (init_state False (filled [5] 0) \<lparr>dims = [5], data = [5, 3, 6, 2, 7 :: 8 word]\<rparr>
           \<lparr>dims = [5], data = [1, 0, 0, 2, 0]\<rparr>) = [[1]]
   \<and> s_hqueue (expand False \<lparr>dims = [5], data = [5, 3, 6, 2, 7 :: 8 word]\<rparr>
        \<lparr>dims = [3], data = [1, 1, 1]\<rparr> (MarkerInfo 1 0 [0])
        (init_state False (filled [5] 0) \<lparr>dims = [5], data = [5, 3, 6, 2, 7 :: 8 word]\<rparr>
           \<lparr>dims = [5], data = [1, 0, 0, 2, 0]\<rparr>))
       = [MarkerInfo 2 1 [3], MarkerInfo 3 2 [1]]
   \<and> at (s_cost (expand False \<lparr>dims = [5], data = [5, 3, 6, 2, 7 :: 8 word]\<rparr>
        \<lparr>dims = [3], data = [1, 1, 1]\<rparr> (MarkerInfo 1 0 [0])
        (init_state False (filled [5] 0) \<lparr>dims = [5], data = [5, 3, 6, 2, 7 :: 8 word]\<rparr>
           \<lparr>dims = [5], data = [1, 0, 0, 2, 0]\<rparr>))) [1] = 3
   \<and> at (s_res (expand False \<lparr>dims = [5], data = [5, 3, 6, 2, 7 :: 8 word]\<rparr>
        \<lparr>dims = [3], data = [1, 1, 1]\<rparr> (MarkerInfo 1 0 [0])
        (init_state False (filled [5] 0) \<lparr>dims = [5], data = [5, 3, 6, 2, 7 :: 8 word]\<rparr>
           \<lparr>dims = [5], data = [1, 0, 0, 2, 0]\<rparr>))) [1] = 1
   \<and> at (s_res (expand False \<lparr>dims = [5], data = [5, 3, 6, 2, 7 :: 8 word]\<rparr>
        \<lparr>dims = [3], data = [1, 1, 1]\<rparr> (MarkerInfo 1 0 [0])
        (init_state False (filled [5] 0) \<lparr>dims = [5], data = [5, 3, 6, 2, 7 :: 8 word]\<rparr>
           \<lparr>dims = [5], data = [1, 0, 0, 2, 0]\<rparr>))) [2] = 0"
proof -
  let ?A = "\<lparr>dims = [5], data = [5, 3, 6, 2, 7 :: 8 word]\<rparr>"
  let ?M = "\<lparr>dims = [5], data = [1, 0, 0, 2, 0 :: 8 word]\<rparr>"
  let ?B = "\<lparr>dims = [3], data = [1, 1, 1 :: 8 word]\<rparr>"
  let ?e = "MarkerInfo 1 0 [0]"
  let ?st = "init_state False (filled [5] 0) ?A ?M"
  have sh: "shaped ?A ?st" by code_simp
  have b: "wf_array ?B" by (simp add: wf_array_def)
  have nd: "length (dims ?B) = length (dims ?A)" by simp
  have p: "validposition ?A (pos ?e)" by (simp add: validposition_def)
  note inst = expand_neighbours [OF sh b nd p, of False]
  have v: "validposition ?A [1]" "validposition ?A [2]"
    by (simp_all add: validposition_def)
  have imp: "improved False ?A ?B ?e ?st = [[1]]"
    by code_simp
  have vals: "s_hqueue ?st = [MarkerInfo 1 0 [0], MarkerInfo 2 1 [3]]" "s_idx ?st = 2"
    "at ?A [1] = 3" "at (s_res ?st) [0] = 1" "at (s_res ?st) [2] = 0"
    "to_int False (3 :: 8 word) = 3"
    by code_simp+
  have "s_hqueue (expand False ?A ?B ?e ?st)
        = remove1 ?e (s_hqueue ?st)
          @ entries (\<lambda>n. to_int False (at ?A n)) (s_idx ?st) (improved False ?A ?B ?e ?st)"
    using inst by blast
  then have q: "s_hqueue (expand False ?A ?B ?e ?st) = [MarkerInfo 2 1 [3], MarkerInfo 3 2 [1]]"
    unfolding imp by (simp add: vals)
  have "at (s_cost (expand False ?A ?B ?e ?st)) [1]
        = (if [1] \<in> set (improved False ?A ?B ?e ?st) then at ?A [1] else at (s_cost ?st) [1])"
    using inst v(1) by blast
  then have c: "at (s_cost (expand False ?A ?B ?e ?st)) [1] = 3"
    unfolding imp by (simp add: vals)
  have "at (s_res (expand False ?A ?B ?e ?st)) [1]
        = (if [1] \<in> set (improved False ?A ?B ?e ?st) then at (s_res ?st) (pos ?e)
           else at (s_res ?st) [1])"
    using inst v(1) by blast
  then have r1: "at (s_res (expand False ?A ?B ?e ?st)) [1] = 1"
    unfolding imp by (simp add: vals)
  have "at (s_res (expand False ?A ?B ?e ?st)) [2]
        = (if [2] \<in> set (improved False ?A ?B ?e ?st) then at (s_res ?st) (pos ?e)
           else at (s_res ?st) [2])"
    using inst v(2) by blast
  then have r2: "at (s_res (expand False ?A ?B ?e ?st)) [2] = 0"
    unfolding imp by (simp add: vals)
  show ?thesis
    using sh b nd p imp q c r1 r2 by simp
qed

section \<open>Watershed: the main loop ends\<close>

lemma shaped_visit: "shaped array st \<Longrightarrow> shaped array (visit sg array c p b st)"
  by (cases b) (simp add: visit_def shaped_def Let_def wf_array_set_at dims_set_at)

lemma shaped_fold_visit: "shaped array st \<Longrightarrow> shaped array (fold (visit sg array c p) bs st)"
  by (induction bs arbitrary: st) (simp_all add: shaped_visit)

lemma shaped_expand: "shaped array st \<Longrightarrow> shaped array (expand sg array Bc e st)"
  by (simp add: expand_def shaped_fold_visit shaped_settle)

lemma finite_pending: "finite (pending sg array st)"
  by (simp add: pending_def)

lemma pending_visit_improving:
  assumes "shaped array st" "bv \<noteq> 0" "improving sg array st (pos_sub (pos_add p bp) c)"
  shows "pos_sub (pos_add p bp) c \<in> pending sg array st
         \<and> pending sg array (visit sg array c p (bp, bv) st)
             = pending sg array st - {pos_sub (pos_add p bp) c}"
proof -
  let ?n = "pos_sub (pos_add p bp) c"
  let ?st = "visit sg array c p (bp, bv) st"
  have st': "?st = st\<lparr>s_cost := set_at (s_cost st) ?n (at array ?n),
      s_res := set_at (s_res st) ?n (at (s_res st) p),
      s_hqueue := s_hqueue st @ [MarkerInfo (to_int sg (at array ?n)) (s_idx st) ?n],
      s_idx := s_idx st + 1\<rparr>"
    using assms(2,3) by (rule visit_improving)
  have n_valid: "validposition (s_cost st) ?n" and n_less: "elem_less sg (at array ?n) (at (s_cost st) ?n)"
    using assms(1,3) by (simp_all add: improving_def shaped_def validposition_def)
  have wf: "wf_array (s_cost st)" and d: "dims (s_cost st) = dims array"
    using assms(1) by (simp_all add: shaped_def)
  have n_in: "?n \<in> pending sg array st"
    using n_valid n_less d by (simp add: pending_def set_positions validposition_def)
  have "pending sg array ?st = pending sg array st - {?n}"
  proof (rule set_eqI)
    fix m
    show "m \<in> pending sg array ?st \<longleftrightarrow> m \<in> pending sg array st - {?n}"
    proof (cases "m \<in> set (positions (dims array))")
      case False
      then show ?thesis by (simp add: pending_def)
    next
      case True
      then have "validposition (s_cost st) m"
        using d by (simp add: set_positions validposition_def)
      then have "at (s_cost ?st) m = (if m = ?n then at array ?n else at (s_cost st) m)"
        using at_set_at [OF wf n_valid] by (simp add: st')
      then show ?thesis
        using True by (auto simp: pending_def elem_less_irrefl)
    qed
  qed
  then show ?thesis
    using n_in by simp
qed

lemma work_visit:
  assumes "shaped array st"
  shows "work sg array (visit sg array c p b st) \<le> work sg array st"
proof -
  obtain bp bv where b: "b = (bp, bv)" by (cases b)
  let ?n = "pos_sub (pos_add p bp) c"
  show ?thesis
  proof (cases "bv \<noteq> 0 \<and> improving sg array st ?n")
    case False
    then have "visit sg array c p b st = st"
      using visit_inactive [of sg array c p bp st] visit_not_improving [of sg array st p bp c bv]
      by (auto simp: b)
    then show ?thesis by simp
  next
    case True
    let ?st = "visit sg array c p (bp, bv) st"
    have pend: "?n \<in> pending sg array st"
      "pending sg array ?st = pending sg array st - {?n}"
      using pending_visit_improving [OF assms, of bv sg p bp c] True by simp_all
    then have "card (pending sg array ?st) = card (pending sg array st) - 1"
      and "0 < card (pending sg array st)"
      using finite_pending [of sg array st] by (auto simp: card_gt_0_iff)
    moreover have "length (s_hqueue ?st) = length (s_hqueue st) + 1"
      using True by (simp add: visit_improving)
    ultimately show ?thesis
      unfolding b by (simp add: work_def)
  qed
qed

lemma work_fold_visit:
  "shaped array st \<Longrightarrow> work sg array (fold (visit sg array c p) bs st) \<le> work sg array st"
proof (induction bs arbitrary: st)
  case Nil
  show ?case by simp
next
  case (Cons b bs)
  have "work sg array (fold (visit sg array c p) bs (visit sg array c p b st))
        \<le> work sg array (visit sg array c p b st)"
    using Cons.prems by (intro Cons.IH shaped_visit)
  also have "\<dots> \<le> work sg array st"
    using Cons.prems by (rule work_visit)
  finally show ?case by simp
qed

lemma work_settle:
  assumes "e \<in> set (s_hqueue st)"
  shows "work sg array (settle e st) < work sg array st"
proof -
  have "length (remove1 e (s_hqueue st)) < length (s_hqueue st)"
    using assms by (simp add: length_remove1) (cases "s_hqueue st", auto)
  then show ?thesis
    by (simp add: work_def settle_def pop_def pending_def)
qed

lemma work_expand:
  assumes "shaped array st" "top (s_hqueue st) = Some e"
  shows "work sg array (expand sg array Bc e st) < work sg array st"
proof -
  have "e \<in> set (s_hqueue st)"
    using top_Some [OF assms(2)] by simp
  then have "work sg array (settle e st) < work sg array st"
    by (rule work_settle)
  moreover have "work sg array (expand sg array Bc e st) \<le> work sg array (settle e st)"
    unfolding expand_def using assms(1) by (intro work_fold_visit shaped_settle)
  ultimately show ?thesis by simp
qed

text \<open>From a state of the right shape the loop returns, after finitely many iterations,
  with an empty queue.\<close>

lemma flood_iterate:
  fixes st :: "'a::len word flood_state"
  assumes "shaped array st"
  shows "\<exists>k. k \<le> work sg array st \<and> s_hqueue (iterate sg array Bc k st) = []
             \<and> flood sg array Bc st = Some (iterate sg array Bc k st)"
  using assms
proof (induction "work sg array st" arbitrary: st rule: less_induct)
  case less
  show ?case
  proof (cases "top (s_hqueue st)")
    case None
    then have "s_hqueue (iterate sg array Bc 0 st) = []"
      by (simp add: top_None_iff)
    moreover have "flood sg array Bc st = Some (iterate sg array Bc 0 st)"
      by (subst flood.simps) (simp add: None)
    ultimately show ?thesis by blast
  next
    case (Some e)
    let ?st = "expand sg array Bc e st"
    have smaller: "work sg array ?st < work sg array st"
      using less.prems Some by (rule work_expand)
    moreover have "shaped array ?st"
      using less.prems by (rule shaped_expand)
    ultimately obtain k where k: "k \<le> work sg array ?st"
      "s_hqueue (iterate sg array Bc k ?st) = []"
      "flood sg array Bc ?st = Some (iterate sg array Bc k ?st)"
      using less.hyps by blast
    have "Suc k \<le> work sg array st"
      using k(1) smaller by simp
    moreover have "s_hqueue (iterate sg array Bc (Suc k) st) = []"
      using k(2) by (simp add: Some)
    moreover have "flood sg array Bc st = Some (iterate sg array Bc (Suc k) st)"
      by (subst flood.simps) (simp add: Some k(3))
    ultimately show ?thesis by blast
  qed
qed

text \<open>A property every iteration keeps holds at the head of every iteration.\<close>

lemma iterate_invariant:
  fixes st :: "'a::len word flood_state"
  assumes "\<And>s e. shaped array s \<Longrightarrow> I s \<Longrightarrow> top (s_hqueue s) = Some e
                   \<Longrightarrow> I (expand sg array Bc e s)"
    and "shaped array st" "I st"
  shows "I (iterate sg array Bc k st) \<and> shaped array (iterate sg array Bc k st)"
  using assms(2,3)
proof (induction k arbitrary: st)
  case 0
  then show ?case by simp
next
  case (Suc k)
  show ?case
  proof (cases "top (s_hqueue st)")
    case None
    then show ?thesis using Suc.prems by simp
  next
    case (Some e)
    have "I (expand sg array Bc e st)" "shaped array (expand sg array Bc e st)"
      using Suc.prems Some assms(1) shaped_expand by blast+
    then show ?thesis
      using Suc.IH by (simp add: Some)
  qed
qed

section \<open>Watershed: what a run keeps\<close>

lemma shaped_seed: "shaped array st \<Longrightarrow> shaped array (seed sg array m st)"
  by (cases m) (simp add: seed_def shaped_def wf_array_set_at dims_set_at)

lemma shaped_fold_seed: "shaped array st \<Longrightarrow> shaped array (fold (seed sg array) ms st)"
  by (induction ms arbitrary: st) (simp_all add: shaped_seed)

lemma shaped_init_state:
  "wf_array res \<Longrightarrow> dims res = dims array \<Longrightarrow> shaped array (init_state sg res array markers)"
  unfolding init_state_def
  by (intro shaped_fold_seed) (simp add: shaped_def wf_array_filled dims_filled)

text \<open>A position whose intensity is not below its cost is left alone by the neighbour
  loop: neither its cost nor its result changes.\<close>

lemma visit_frozen:
  assumes "shaped array st" "validposition array m"
    and "\<not> elem_less sg (at array m) (at (s_cost st) m)"
  shows "at (s_cost (visit sg array c p b st)) m = at (s_cost st) m
         \<and> at (s_res (visit sg array c p b st)) m = at (s_res st) m"
proof -
  obtain bp bv where b: "b = (bp, bv)" by (cases b)
  let ?n = "pos_sub (pos_add p bp) c"
  show ?thesis
  proof (cases "bv \<noteq> 0 \<and> improving sg array st ?n")
    case False
    then have "visit sg array c p b st = st"
      using visit_inactive [of sg array c p bp st] visit_not_improving [of sg array st p bp c bv]
      by (auto simp: b)
    then show ?thesis by simp
  next
    case True
    have st': "visit sg array c p b st = st\<lparr>s_cost := set_at (s_cost st) ?n (at array ?n),
        s_res := set_at (s_res st) ?n (at (s_res st) p),
        s_hqueue := s_hqueue st @ [MarkerInfo (to_int sg (at array ?n)) (s_idx st) ?n],
        s_idx := s_idx st + 1\<rparr>"
      using True unfolding b by (intro visit_improving) simp_all
    have "m \<noteq> ?n"
      using True assms(3) by (auto simp: improving_def)
    moreover have "validposition (s_cost st) ?n" "validposition (s_res st) ?n"
      "validposition (s_cost st) m" "validposition (s_res st) m"
      using True assms(1,2) by (simp_all add: improving_def shaped_def validposition_def)
    ultimately show ?thesis
      by (simp add: st' at_set_at_other)
  qed
qed

lemma fold_visit_frozen:
  assumes "shaped array st" "validposition array m"
    and "\<not> elem_less sg (at array m) (at (s_cost st) m)"
  shows "at (s_cost (fold (visit sg array c p) bs st)) m = at (s_cost st) m
         \<and> at (s_res (fold (visit sg array c p) bs st)) m = at (s_res st) m"
  using assms(1,3)
proof (induction bs arbitrary: st)
  case Nil
  show ?case by simp
next
  case (Cons b bs)
  let ?st = "visit sg array c p b st"
  have one: "at (s_cost ?st) m = at (s_cost st) m" "at (s_res ?st) m = at (s_res st) m"
    using visit_frozen [OF Cons.prems(1) assms(2) Cons.prems(2)] by simp_all
  have "shaped array ?st" "\<not> elem_less sg (at array m) (at (s_cost ?st) m)"
    using Cons.prems by (simp_all add: shaped_visit one)
  then show ?case
    using Cons.IH [of ?st] one by simp
qed

lemma expand_frozen:
  assumes "shaped array st" "validposition array m"
    and "\<not> elem_less sg (at array m) (at (s_cost st) m)"
  shows "at (s_cost (expand sg array Bc e st)) m = at (s_cost st) m
         \<and> at (s_res (expand sg array Bc e st)) m = at (s_res st) m"
proof -
  have "shaped array (settle e st)" "\<not> elem_less sg (at array m) (at (s_cost (settle e st)) m)"
    using assms by (simp_all add: shaped_settle) (simp add: settle_def)
  then show ?thesis
    unfolding expand_def using fold_visit_frozen [OF _ assms(2)]
    by (simp add: settle_def)
qed

text \<open>A position whose result the neighbour loop changes is in the queue after it.\<close>

lemma hqueue_visit: "set (s_hqueue st) \<subseteq> set (s_hqueue (visit sg array c p b st))"
  by (cases b) (auto simp: visit_def Let_def push_def)

lemma hqueue_fold_visit: "set (s_hqueue st) \<subseteq> set (s_hqueue (fold (visit sg array c p) bs st))"
proof (induction bs arbitrary: st)
  case Nil
  show ?case by simp
next
  case (Cons b bs)
  show ?case
    using hqueue_visit [of st sg array c p b] Cons [of "visit sg array c p b st"] by auto
qed

lemma visit_res_change:
  assumes "shaped array st" "validposition array m"
    and "at (s_res (visit sg array c p b st)) m \<noteq> at (s_res st) m"
  shows "m \<in> pos ` set (s_hqueue (visit sg array c p b st))"
proof -
  obtain bp bv where b: "b = (bp, bv)" by (cases b)
  let ?n = "pos_sub (pos_add p bp) c"
  have imp: "bv \<noteq> 0 \<and> improving sg array st ?n"
  proof (rule ccontr)
    assume "\<not> (bv \<noteq> 0 \<and> improving sg array st ?n)"
    then have "visit sg array c p b st = st"
      using visit_inactive [of sg array c p bp st] visit_not_improving [of sg array st p bp c bv]
      by (auto simp: b)
    then show False
      using assms(3) by simp
  qed
  then have st': "visit sg array c p b st = st\<lparr>s_cost := set_at (s_cost st) ?n (at array ?n),
        s_res := set_at (s_res st) ?n (at (s_res st) p),
        s_hqueue := s_hqueue st @ [MarkerInfo (to_int sg (at array ?n)) (s_idx st) ?n],
        s_idx := s_idx st + 1\<rparr>"
    unfolding b by (intro visit_improving) simp_all
  have "validposition (s_res st) ?n" "validposition (s_res st) m"
    using imp assms(1,2) by (simp_all add: improving_def shaped_def validposition_def)
  then have "m = ?n"
    using assms(3) at_set_at_other [of "s_res st" ?n m] by (auto simp: st')
  then show ?thesis
    by (simp add: st')
qed

lemma fold_visit_res_change:
  assumes "validposition array m"
  shows "shaped array st \<Longrightarrow> at (s_res (fold (visit sg array c p) bs st)) m \<noteq> at (s_res st) m
         \<Longrightarrow> m \<in> pos ` set (s_hqueue (fold (visit sg array c p) bs st))"
proof (induction bs arbitrary: st)
  case Nil
  then show ?case by simp
next
  case (Cons b bs)
  let ?st = "visit sg array c p b st"
  show ?case
  proof (cases "at (s_res (fold (visit sg array c p) bs ?st)) m = at (s_res ?st) m")
    case True
    then have "at (s_res ?st) m \<noteq> at (s_res st) m"
      using Cons.prems(2) by simp
    then have "m \<in> pos ` set (s_hqueue ?st)"
      using Cons.prems(1) assms by (intro visit_res_change)
    then show ?thesis
      using hqueue_fold_visit [of ?st sg array c p bs] by auto
  next
    case False
    then show ?thesis
      using Cons.IH [of ?st] Cons.prems(1) by (simp add: shaped_visit)
  qed
qed

lemma expand_res_change:
  assumes "shaped array st" "validposition array m"
    and "at (s_res (expand sg array Bc e st)) m \<noteq> at (s_res st) m"
  shows "m \<in> pos ` set (s_hqueue (expand sg array Bc e st))"
proof -
  have "at (s_res (fold (visit sg array (central_position Bc) (pos e)) (iter Bc) (settle e st))) m
        \<noteq> at (s_res (settle e st)) m"
    using assms(3) by (simp add: expand_def settle_def)
  then show ?thesis
    unfolding expand_def
    using assms(1,2) by (intro fold_visit_res_change shaped_settle)
qed

lemma iterate_Suc_right:
  "iterate sg array Bc (Suc k) st =
     (case top (s_hqueue (iterate sg array Bc k st)) of
        None \<Rightarrow> iterate sg array Bc k st
      | Some e \<Rightarrow> expand sg array Bc e (iterate sg array Bc k st))"
proof (induction k arbitrary: st)
  case 0
  show ?case by (simp split: option.splits)
next
  case (Suc k)
  show ?case
  proof (cases "top (s_hqueue st)")
    case None
    then show ?thesis by simp
  next
    case (Some e)
    have a: "iterate sg array Bc (Suc (Suc k)) st = iterate sg array Bc (Suc k) (expand sg array Bc e st)"
      by (simp add: Some)
    have b: "iterate sg array Bc (Suc k) st = iterate sg array Bc k (expand sg array Bc e st)"
      by (simp add: Some)
    show ?thesis
      unfolding a b by (rule Suc)
  qed
qed

lemma shaped_iterate: "shaped array st \<Longrightarrow> shaped array (iterate sg array Bc k st)"
  using iterate_invariant [of array "\<lambda>_. True" sg Bc st k] by simp

lemma iterate_done: "top (s_hqueue st) = None \<Longrightarrow> iterate sg array Bc k st = st"
  by (cases k) simp_all

text \<open>
  C4. For well-formed inputs of one shape, \<open>cwatershed\<close> returns, and at every position
  holding a nonzero marker the returned result holds that marker; the same is true at
  the head of every iteration of the main loop, so a seed is never relabelled.
\<close>

theorem seeds_keep_label:
  fixes res :: "'a::len word array"
  assumes "wf_array res" "wf_array markers"
    and "dims res = dims array" "dims markers = dims array"
  shows "\<exists>r. cwatershed sg res array markers Bc = Some r
           \<and> (\<forall>p. validposition array p \<longrightarrow> at markers p \<noteq> 0 \<longrightarrow> at r p = at markers p)
           \<and> (\<forall>k p. validposition array p \<longrightarrow> at markers p \<noteq> 0 \<longrightarrow>
                 at (s_res (iterate sg array Bc k (init_state sg res array markers))) p
                 = at markers p)"
proof -
  let ?st0 = "init_state sg res array markers"
  let ?I = "\<lambda>st :: 'a word flood_state. \<forall>p. validposition array p \<longrightarrow> at markers p \<noteq> 0 \<longrightarrow>
              at (s_cost st) p = at array p \<and> at (s_res st) p = at markers p"
  have sh: "shaped array ?st0"
    using assms(1,3) by (rule shaped_init_state)
  have base: "?I ?st0"
    using init_cost_at [OF assms(2,3,4), of _ sg] init_res_at [OF assms, of _ sg] by simp
  have step: "?I (expand sg array Bc e s)" if "shaped array s" "?I s" for s e
  proof (intro allI impI)
    fix p
    assume p: "validposition array p" "at markers p \<noteq> 0"
    then have "\<not> elem_less sg (at array p) (at (s_cost s) p)"
      using that(2) by (simp add: elem_less_irrefl)
    then show "at (s_cost (expand sg array Bc e s)) p = at array p
               \<and> at (s_res (expand sg array Bc e s)) p = at markers p"
      using expand_frozen [OF that(1) p(1), of sg Bc e] that(2) p by simp
  qed
  have always: "?I (iterate sg array Bc k ?st0)" for k
    using iterate_invariant [of array ?I sg Bc ?st0 k] step sh base by blast
  obtain k where "flood sg array Bc ?st0 = Some (iterate sg array Bc k ?st0)"
    using flood_iterate [OF sh, of sg Bc] by blast
  then have "cwatershed sg res array markers Bc = Some (s_res (iterate sg array Bc k ?st0))"
    by (simp add: cwatershed_def)
  then show ?thesis
    using always by blast
qed

text \<open>
  The intensities \<open>[5, 3, 6, 2, 7]\<close> with the markers \<open>[1, 0, 0, 2, 0]\<close>: the run returns
  \<open>[1, 1, 2, 2, 2]\<close>, with the labels 1 and 2 at the two seeds.
\<close>

theorem seeds_keep_label_witness:
  "wf_array (filled [5] (0 :: 8 word))
   \<and> wf_array \<lparr>dims = [5], data = [1, 0, 0, 2, 0 :: 8 word]\<rparr>
   \<and> dims (filled [5] (0 :: 8 word)) = dims \<lparr>dims = [5], data = [5, 3, 6, 2, 7 :: 8 word]\<rparr>
   \<and> dims \<lparr>dims = [5], data = [1, 0, 0, 2, 0 :: 8 word]\<rparr>
       = dims \<lparr>dims = [5], data = [5, 3, 6, 2, 7 :: 8 word]\<rparr>
   \<and> validposition \<lparr>dims = [5], data = [5, 3, 6, 2, 7 :: 8 word]\<rparr> [3]
   \<and> at \<lparr>dims = [5], data = [1, 0, 0, 2, 0 :: 8 word]\<rparr> [3] \<noteq> 0
   \<and> cwatershed False (filled [5] 0) \<lparr>dims = [5], data = [5, 3, 6, 2, 7 :: 8 word]\<rparr>
        \<lparr>dims = [5], data = [1, 0, 0, 2, 0]\<rparr> \<lparr>dims = [3], data = [1, 1, 1]\<rparr>
       = Some \<lparr>dims = [5], data = [1, 1, 2, 2, 2]\<rparr>
   \<and> (\<exists>r. cwatershed False (filled [5] 0) \<lparr>dims = [5], data = [5, 3, 6, 2, 7 :: 8 word]\<rparr>
        \<lparr>dims = [5], data = [1, 0, 0, 2, 0]\<rparr> \<lparr>dims = [3], data = [1, 1, 1]\<rparr> = Some r
        \<and> at r [3] = 2)"
proof -
  let ?R = "filled [5] (0 :: 8 word)"
  let ?A = "\<lparr>dims = [5], data = [5, 3, 6, 2, 7 :: 8 word]\<rparr>"
  let ?M = "\<lparr>dims = [5], data = [1, 0, 0, 2, 0 :: 8 word]\<rparr>"
  let ?B = "\<lparr>dims = [3], data = [1, 1, 1 :: 8 word]\<rparr>"
  have r: "wf_array ?R" by (rule wf_array_filled)
  have m: "wf_array ?M" by (simp add: wf_array_def)
  have dr: "dims ?R = dims ?A" by (simp add: dims_filled)
  have dm: "dims ?M = dims ?A" by simp
  have v: "validposition ?A [3]" by (simp add: validposition_def)
  have mk: "at ?M [3] = 2" by code_simp
  have run: "cwatershed False ?R ?A ?M ?B = Some \<lparr>dims = [5], data = [1, 1, 2, 2, 2]\<rparr>"
    by code_simp
  from seeds_keep_label [OF r m dr dm, of False ?B]
  obtain res' where "cwatershed False ?R ?A ?M ?B = Some res'"
    and "\<forall>p. validposition ?A p \<longrightarrow> at ?M p \<noteq> 0 \<longrightarrow> at res' p = at ?M p"
    by blast
  then have "cwatershed False ?R ?A ?M ?B = Some res' \<and> at res' [3] = 2"
    using v mk by simp
  then show ?thesis
    using r m dr dm v mk run by simp
qed

text \<open>A position whose result differs from the initial one was in the queue at the head
  of some iteration.\<close>

lemma res_change_queued:
  fixes res :: "'a::len word array"
  assumes "wf_array res" "wf_array markers"
    and "dims res = dims array" "dims markers = dims array"
    and "validposition array n"
  shows "at (s_res (iterate sg array Bc k (init_state sg res array markers))) n \<noteq> at res n
         \<Longrightarrow> \<exists>j. n \<in> pos ` set (s_hqueue (iterate sg array Bc j (init_state sg res array markers)))"
proof (induction k)
  case 0
  then have "at markers n \<noteq> 0"
    using init_res_at [OF assms, of sg] by (auto split: if_splits)
  then have "n \<in> set (seeds markers)"
    using seeds_iff [OF assms(4,5)] by simp
  then have "n \<in> pos ` set (s_hqueue (iterate sg array Bc 0 (init_state sg res array markers)))"
    using init_hqueue [OF assms(2,3,4), of sg]
      map_pos_entries [of "\<lambda>p. to_int sg (at markers p)" 0 "seeds markers"]
    by (metis iterate.simps(1) set_map)
  then show ?case by blast
next
  case (Suc k)
  let ?st0 = "init_state sg res array markers"
  let ?s = "iterate sg array Bc k ?st0"
  have sh: "shaped array ?s"
    using assms(1,3) by (intro shaped_iterate shaped_init_state)
  show ?case
  proof (cases "at (s_res ?s) n = at res n")
    case False
    then show ?thesis by (rule Suc.IH)
  next
    case True
    then have changed: "at (s_res (iterate sg array Bc (Suc k) ?st0)) n \<noteq> at (s_res ?s) n"
      using Suc.prems by simp
    then obtain e where e: "top (s_hqueue ?s) = Some e"
      unfolding iterate_Suc_right by (cases "top (s_hqueue ?s)") auto
    then have next_state: "iterate sg array Bc (Suc k) ?st0 = expand sg array Bc e ?s"
      unfolding iterate_Suc_right by simp
    have "n \<in> pos ` set (s_hqueue (expand sg array Bc e ?s))"
      using changed unfolding next_state by (intro expand_res_change [OF sh assms(5)])
    then show ?thesis
      unfolding next_state [symmetric] by blast
  qed
qed

text \<open>
  C8. For well-formed inputs of one shape the main loop ends: after a number \<open>k\<close> of
  iterations, at most the initial work (the length of the queue plus twice the number
  of positions whose cost can still improve), the queue is empty and \<open>flood\<close> returns that
  state, so \<open>cwatershed\<close> returns its result. A valid position that is in the queue at
  the head of no iteration, that is, one never pushed, holds at return the value it had
  in the result array at the start (zero, as \<open>py_cwatershed\<close> allocates it).
\<close>

theorem flood_terminates:
  fixes res :: "'a::len word array"
  assumes "wf_array res" "wf_array markers"
    and "dims res = dims array" "dims markers = dims array"
  shows "\<exists>k. k \<le> work sg array (init_state sg res array markers)
           \<and> s_hqueue (iterate sg array Bc k (init_state sg res array markers)) = []
           \<and> flood sg array Bc (init_state sg res array markers)
               = Some (iterate sg array Bc k (init_state sg res array markers))
           \<and> cwatershed sg res array markers Bc
               = Some (s_res (iterate sg array Bc k (init_state sg res array markers)))
           \<and> (\<forall>n. validposition array n \<longrightarrow>
                 (\<forall>j. n \<notin> pos ` set (s_hqueue (iterate sg array Bc j (init_state sg res array markers))))
                 \<longrightarrow> at (s_res (iterate sg array Bc k (init_state sg res array markers))) n = at res n)"
proof -
  let ?st0 = "init_state sg res array markers"
  have sh: "shaped array ?st0"
    using assms(1,3) by (rule shaped_init_state)
  obtain k where k: "k \<le> work sg array ?st0" "s_hqueue (iterate sg array Bc k ?st0) = []"
    "flood sg array Bc ?st0 = Some (iterate sg array Bc k ?st0)"
    using flood_iterate [OF sh, of sg Bc] by blast
  have "cwatershed sg res array markers Bc = Some (s_res (iterate sg array Bc k ?st0))"
    using k(3) by (simp add: cwatershed_def)
  moreover have "\<forall>n. validposition array n \<longrightarrow>
      (\<forall>j. n \<notin> pos ` set (s_hqueue (iterate sg array Bc j ?st0)))
      \<longrightarrow> at (s_res (iterate sg array Bc k ?st0)) n = at res n"
    using res_change_queued [OF assms, of _ sg Bc k] by blast
  ultimately show ?thesis
    using k by blast
qed

lemma iterate_add:
  "iterate sg array Bc (a + b) st = iterate sg array Bc b (iterate sg array Bc a st)"
proof (induction a arbitrary: st)
  case 0
  show ?case by simp
next
  case (Suc a)
  show ?case
  proof (cases "top (s_hqueue st)")
    case None
    then show ?thesis by (simp add: iterate_done)
  next
    case (Some e)
    then show ?thesis using Suc by simp
  qed
qed

text \<open>
  The intensities \<open>[5, 3, 6]\<close> with the marker 1 at position 1 and the element
  \<open>[1, 1, 0]\<close>, whose offsets are \<open>-1\<close> and \<open>0\<close>: the flood reaches position 0 and ends after
  two iterations; position 2 is never pushed and keeps its zero.
\<close>

theorem flood_terminates_witness:
  "wf_array (filled [3] (0 :: 8 word))
   \<and> wf_array \<lparr>dims = [3], data = [0, 1, 0 :: 8 word]\<rparr>
   \<and> dims (filled [3] (0 :: 8 word)) = dims \<lparr>dims = [3], data = [5, 3, 6 :: 8 word]\<rparr>
   \<and> dims \<lparr>dims = [3], data = [0, 1, 0 :: 8 word]\<rparr> = dims \<lparr>dims = [3], data = [5, 3, 6 :: 8 word]\<rparr>
   \<and> validposition \<lparr>dims = [3], data = [5, 3, 6 :: 8 word]\<rparr> [2]
   \<and> (\<forall>j. [2] \<notin> pos ` set (s_hqueue (iterate False \<lparr>dims = [3], data = [5, 3, 6 :: 8 word]\<rparr>
          \<lparr>dims = [3], data = [1, 1, 0]\<rparr> j
          (init_state False (filled [3] 0) \<lparr>dims = [3], data = [5, 3, 6 :: 8 word]\<rparr>
             \<lparr>dims = [3], data = [0, 1, 0]\<rparr>))))
   \<and> cwatershed False (filled [3] 0) \<lparr>dims = [3], data = [5, 3, 6 :: 8 word]\<rparr>
        \<lparr>dims = [3], data = [0, 1, 0]\<rparr> \<lparr>dims = [3], data = [1, 1, 0]\<rparr>
       = Some \<lparr>dims = [3], data = [1, 1, 0]\<rparr>
   \<and> (\<exists>r. cwatershed False (filled [3] 0) \<lparr>dims = [3], data = [5, 3, 6 :: 8 word]\<rparr>
        \<lparr>dims = [3], data = [0, 1, 0]\<rparr> \<lparr>dims = [3], data = [1, 1, 0]\<rparr> = Some r
        \<and> at r [2] = at (filled [3] 0) [2])"
proof -
  let ?R = "filled [3] (0 :: 8 word)"
  let ?A = "\<lparr>dims = [3], data = [5, 3, 6 :: 8 word]\<rparr>"
  let ?M = "\<lparr>dims = [3], data = [0, 1, 0 :: 8 word]\<rparr>"
  let ?B = "\<lparr>dims = [3], data = [1, 1, 0 :: 8 word]\<rparr>"
  let ?st0 = "init_state False ?R ?A ?M"
  have r: "wf_array ?R" by (rule wf_array_filled)
  have m: "wf_array ?M" by (simp add: wf_array_def)
  have dr: "dims ?R = dims ?A" by (simp add: dims_filled)
  have dm: "dims ?M = dims ?A" by simp
  have v: "validposition ?A [2]" by (simp add: validposition_def)
  have q0: "s_hqueue (iterate False ?A ?B 0 ?st0) = [MarkerInfo 1 0 [1]]"
    by code_simp
  have q1: "s_hqueue (iterate False ?A ?B (Suc 0) ?st0) = [MarkerInfo 5 1 [0]]"
    by code_simp
  have q2: "s_hqueue (iterate False ?A ?B (Suc (Suc 0)) ?st0) = []"
    by code_simp
  have never: "\<forall>j. [2] \<notin> pos ` set (s_hqueue (iterate False ?A ?B j ?st0))"
  proof
    fix j
    consider "j = 0" | "j = Suc 0" | i where "j = Suc (Suc 0) + i"
      by (cases j rule: nat.exhaust [case_names z s]) (auto, metis not0_implies_Suc)
    then show "[2] \<notin> pos ` set (s_hqueue (iterate False ?A ?B j ?st0))"
    proof cases
      case 1
      then show ?thesis using q0 by simp
    next
      case 2
      then show ?thesis using q1 by simp
    next
      case 3
      have "top (s_hqueue (iterate False ?A ?B (Suc (Suc 0)) ?st0)) = None"
        using q2 by simp
      then have "iterate False ?A ?B j ?st0 = iterate False ?A ?B (Suc (Suc 0)) ?st0"
        unfolding 3 iterate_add by (rule iterate_done)
      then show ?thesis using q2 by simp
    qed
  qed
  have run: "cwatershed False ?R ?A ?M ?B = Some \<lparr>dims = [3], data = [1, 1, 0]\<rparr>"
    by code_simp
  from flood_terminates [OF r m dr dm, of False ?B]
  obtain k where "cwatershed False ?R ?A ?M ?B = Some (s_res (iterate False ?A ?B k ?st0))"
    and "\<forall>n. validposition ?A n \<longrightarrow>
           (\<forall>j. n \<notin> pos ` set (s_hqueue (iterate False ?A ?B j ?st0)))
           \<longrightarrow> at (s_res (iterate False ?A ?B k ?st0)) n = at ?R n"
    by blast
  then have "\<exists>res'. cwatershed False ?R ?A ?M ?B = Some res' \<and> at res' [2] = at ?R [2]"
    using v never by blast
  then show ?thesis
    using r m dr dm v never run by blast
qed

section \<open>Watershed: the queue is in push order\<close>

lemma unat_of_nat32: "m < 2 ^ 32 \<Longrightarrow> unat (of_nat m :: 32 word) = m"
  by (simp add: unat_of_nat)

lemma sint_small: "unat (w :: 32 word) < 2 ^ 31 \<Longrightarrow> sint w = int (unat w)"
proof -
  assume small: "unat w < 2 ^ 31"
  have u: "uint w = int (unat w)"
    by simp
  have "int (unat w) < int (2 ^ 31)"
    using small by (rule iffD2 [OF of_nat_less_iff])
  then have lt: "uint w < 2 ^ 31"
    unfolding u by simp
  have ge: "- (2 ^ 31) \<le> uint w"
    by (rule order_trans [of _ 0]) simp_all
  have "sint w = signed_take_bit 31 (uint w)"
    by (simp add: sint_uint)
  also have "\<dots> = uint w"
    using ge lt by (rule signed_take_bit_int_eq_self)
  finally show ?thesis
    unfolding u .
qed

lemma sorted_wrt_remove1: "sorted_wrt P xs \<Longrightarrow> sorted_wrt P (remove1 x xs)"
proof (induction xs)
  case Nil
  then show ?case by simp
next
  case (Cons a xs)
  then show ?case
    using set_remove1_subset [of x xs] by auto
qed

lemma in_push_order_remove1: "in_push_order m q \<Longrightarrow> in_push_order m (remove1 e q)"
  using set_remove1_subset [of e q] by (auto simp: in_push_order_def sorted_wrt_remove1)

lemma in_push_order_push:
  assumes "in_push_order m q" "m < 2 ^ 32"
  shows "in_push_order (Suc m) (q @ [MarkerInfo c (of_nat m) n])"
  using assms by (auto simp: in_push_order_def sorted_wrt_append unat_of_nat32 less_Suc_eq)

lemma counted_visit:
  assumes "shaped array st" "counted sg array st" "prod_list (dims array) < 2 ^ 32"
  shows "counted sg array (visit sg array c p b st)"
proof -
  obtain bp bv where b: "b = (bp, bv)" by (cases b)
  let ?n = "pos_sub (pos_add p bp) c"
  show ?thesis
  proof (cases "bv \<noteq> 0 \<and> improving sg array st ?n")
    case False
    then have "visit sg array c p b st = st"
      using visit_inactive [of sg array c p bp st] visit_not_improving [of sg array st p bp c bv]
      by (auto simp: b)
    then show ?thesis using assms(2) by simp
  next
    case True
    let ?st = "visit sg array c p (bp, bv) st"
    have st': "?st = st\<lparr>s_cost := set_at (s_cost st) ?n (at array ?n),
        s_res := set_at (s_res st) ?n (at (s_res st) p),
        s_hqueue := s_hqueue st @ [MarkerInfo (to_int sg (at array ?n)) (s_idx st) ?n],
        s_idx := s_idx st + 1\<rparr>"
      using True by (intro visit_improving) simp_all
    obtain m where m: "s_idx st = of_nat m"
      "m + card (pending sg array st) \<le> prod_list (dims array)"
      "in_push_order m (s_hqueue st)"
      using assms(2) by (auto simp: counted_def)
    have pend: "?n \<in> pending sg array st"
      "pending sg array ?st = pending sg array st - {?n}"
      using pending_visit_improving [OF assms(1), of bv sg p bp c] True by simp_all
    then have card: "card (pending sg array ?st) = card (pending sg array st) - 1"
      "0 < card (pending sg array st)"
      using finite_pending [of sg array st] by (auto simp: card_gt_0_iff)
    have small: "m < 2 ^ 32"
      using m(2) card(2) assms(3) by simp
    have "s_idx ?st = of_nat (Suc m)"
      by (simp add: st' m(1))
    moreover have "Suc m + card (pending sg array ?st) \<le> prod_list (dims array)"
      using m(2) card by simp
    moreover have "in_push_order (Suc m) (s_hqueue ?st)"
      using in_push_order_push [OF m(3) small] by (simp add: st' m(1))
    ultimately show ?thesis
      unfolding b counted_def by blast
  qed
qed

lemma counted_fold_visit:
  assumes "prod_list (dims array) < 2 ^ 32"
  shows "shaped array st \<Longrightarrow> counted sg array st
         \<Longrightarrow> counted sg array (fold (visit sg array c p) bs st)"
proof (induction bs arbitrary: st)
  case Nil
  then show ?case by simp
next
  case (Cons b bs)
  have "shaped array (visit sg array c p b st)" "counted sg array (visit sg array c p b st)"
    using Cons.prems assms by (simp_all add: shaped_visit counted_visit)
  then show ?case
    using Cons.IH by simp
qed

lemma counted_expand:
  assumes "shaped array st" "counted sg array st" "prod_list (dims array) < 2 ^ 32"
  shows "counted sg array (expand sg array Bc e st)"
proof -
  have "counted sg array (settle e st)"
    using assms(2) in_push_order_remove1
    by (auto simp: counted_def settle_def pop_def pending_def)
  then show ?thesis
    unfolding expand_def using assms(1,3) by (intro counted_fold_visit shaped_settle)
qed

lemma entries_push_order:
  "i + length ns < 2 ^ 32 \<Longrightarrow>
   sorted_wrt (\<lambda>a b. unat (idx a) < unat (idx b)) (entries pr (of_nat i) ns)
   \<and> (\<forall>e \<in> set (entries pr (of_nat i) ns). i \<le> unat (idx e) \<and> unat (idx e) < i + length ns)"
proof (induction ns arbitrary: i)
  case Nil
  show ?case by simp
next
  case (Cons n ns)
  have i: "unat (of_nat i :: 32 word) = i"
    using Cons.prems by (intro unat_of_nat32) simp
  have "Suc i + length ns < 2 ^ 32"
    using Cons.prems by simp
  from Cons.IH [OF this]
  have "sorted_wrt (\<lambda>a b. unat (idx a) < unat (idx b)) (entries pr (of_nat i + 1) ns)"
    and "\<forall>e \<in> set (entries pr (of_nat i + 1) ns). Suc i \<le> unat (idx e) \<and> unat (idx e) < Suc i + length ns"
    by (simp_all add: add.commute)
  then show ?case
    using i by auto
qed

lemma counted_init_state:
  fixes res :: "'a::len word array"
  assumes "wf_array markers" "dims res = dims array" "dims markers = dims array"
    and "prod_list (dims array) < 2 ^ 32"
  shows "counted sg array (init_state sg res array markers)"
proof -
  let ?st0 = "init_state sg res array markers"
  let ?m = "length (seeds markers)"
  let ?N = "prod_list (dims array)"
  have sub: "set (seeds markers) \<subseteq> set (positions (dims array))"
    using assms(3) by (auto simp: seeds_def)
  have dist: "distinct (seeds markers)"
    by (simp add: seeds_def distinct_positions)
  have m_le: "?m \<le> ?N"
    using length_filter_le [of "\<lambda>p. at markers p \<noteq> 0" "positions (dims markers)"] assms(3)
    by (simp add: seeds_def length_positions)
  have idx: "s_idx ?st0 = of_nat ?m"
    unfolding init_state_fold [OF assms(1,2,3)] fold_seed_idx by (simp add: seeds_def)
  have "0 + ?m < 2 ^ 32"
    using m_le assms(4) by simp
  from entries_push_order [OF this, of "\<lambda>p. to_int sg (at markers p)"]
  have order: "in_push_order ?m (s_hqueue ?st0)"
    by (simp add: init_hqueue [OF assms(1,2,3)] in_push_order_def)
  have "pending sg array ?st0 \<subseteq> set (positions (dims array)) - set (seeds markers)"
  proof
    fix n
    assume n: "n \<in> pending sg array ?st0"
    then have v: "validposition array n"
      and less: "elem_less sg (at array n) (at (s_cost ?st0) n)"
      by (simp_all add: pending_def set_positions validposition_def)
    have "at markers n = 0"
    proof (rule ccontr)
      assume "at markers n \<noteq> 0"
      then have "at (s_cost ?st0) n = at array n"
        using init_cost_at [OF assms(1,2,3) v, of sg] by simp
      then show False
        using less by (simp add: elem_less_irrefl)
    qed
    then show "n \<in> set (positions (dims array)) - set (seeds markers)"
      using n seeds_iff [OF assms(3) v] by (simp add: pending_def)
  qed
  then have "card (pending sg array ?st0) \<le> card (set (positions (dims array)) - set (seeds markers))"
    by (intro card_mono) simp_all
  also have "\<dots> = ?N - ?m"
    using sub dist distinct_positions [of "dims array"]
    by (simp add: card_Diff_subset distinct_card length_positions)
  finally have "?m + card (pending sg array ?st0) \<le> ?N"
    using m_le by simp
  then show ?thesis
    unfolding counted_def using idx order by blast
qed

lemma counted_iterate:
  fixes res :: "'a::len word array"
  assumes "wf_array res" "wf_array markers" "dims res = dims array" "dims markers = dims array"
    and "prod_list (dims array) < 2 ^ 32"
  shows "counted sg array (iterate sg array Bc k (init_state sg res array markers))"
proof -
  have "shaped array (init_state sg res array markers)"
    using assms(1,3) by (rule shaped_init_state)
  moreover have "counted sg array (init_state sg res array markers)"
    using assms(2,3,4,5) by (rule counted_init_state)
  ultimately show ?thesis
    using iterate_invariant [of array "counted sg array" sg Bc _ k] counted_expand assms(5)
    by blast
qed

text \<open>In a queue in push order whose indices are below \<open>2 ^ 31\<close>, the entry with the least
  index among those of its priority is the first of them in the list.\<close>

lemma least_index_is_first:
  assumes "in_push_order m q" "m \<le> 2 ^ 31" "e \<in> set q"
    and "\<forall>x \<in> set q. cost x = cost e \<longrightarrow> sint (idx e) \<le> sint (idx x)"
  shows "hd (filter (\<lambda>x. cost x = cost e) q) = e"
proof -
  let ?f = "filter (\<lambda>x. cost x = cost e) q"
  have e: "e \<in> set ?f"
    using assms(3) by simp
  then obtain h t where f: "?f = h # t"
    by (cases ?f) auto
  have sorted: "sorted_wrt (\<lambda>a b. unat (idx a) < unat (idx b)) ?f"
    using assms(1) by (simp add: in_push_order_def sorted_wrt_filter)
  have small: "unat (idx x) < 2 ^ 31" if "x \<in> set q" for x
    using assms(1,2) that by (auto simp: in_push_order_def)
  have "h \<in> set ?f"
    using f by simp
  then have h: "h \<in> set q" "cost h = cost e"
    by simp_all
  have "e = h"
  proof (rule ccontr)
    assume "e \<noteq> h"
    then have "e \<in> set t"
      using e f by simp
    then have "unat (idx h) < unat (idx e)"
      using sorted f by simp
    moreover have "sint (idx e) \<le> sint (idx h)"
      using assms(4) h by simp
    ultimately show False
      using sint_small [OF small [OF h(1)]] sint_small [OF small [OF assms(3)]] by simp
  qed
  then show ?thesis
    using f by simp
qed

section \<open>Watershed: the order of the pops\<close>

lemma sint_small_less:
  assumes "unat (a :: 32 word) < 2 ^ 31" "unat (b :: 32 word) < 2 ^ 31"
  shows "sint a < sint b \<longleftrightarrow> unat a < unat b"
  by (simp only: sint_small [OF assms(1)] sint_small [OF assms(2)] of_nat_less_iff)

text \<open>
  C2. At the head of an iteration of the main loop of a run with a non-empty queue, the
  entry \<open>top\<close> yields is an entry of the queue whose priority is the smallest of all
  entries in the queue and, among the entries of that priority, whose insertion index
  is the smallest; the iteration removes that entry and goes on from the state \<open>expand\<close>
  reaches with it. As long as the insertion counter cannot wrap around (the array has
  fewer than \<open>2 ^ 31\<close> positions, each pushed at most once), the queue lists its entries
  by increasing index, which is the order of the pushes, and the popped entry is the
  first pushed among the entries of its priority.
\<close>

theorem pop_least_first:
  fixes res :: "'a::len word array"
  assumes "wf_array res" "wf_array markers"
    and "dims res = dims array" "dims markers = dims array"
    and "s_hqueue (iterate sg array Bc k (init_state sg res array markers)) \<noteq> []"
  shows "\<exists>e. top (s_hqueue (iterate sg array Bc k (init_state sg res array markers))) = Some e
           \<and> e \<in> set (s_hqueue (iterate sg array Bc k (init_state sg res array markers)))
           \<and> (\<forall>x \<in> set (s_hqueue (iterate sg array Bc k (init_state sg res array markers))).
                 sint (cost e) < sint (cost x)
                 \<or> (cost e = cost x \<and> sint (idx e) \<le> sint (idx x)))
           \<and> iterate sg array Bc (Suc k) (init_state sg res array markers)
               = expand sg array Bc e (iterate sg array Bc k (init_state sg res array markers))
           \<and> s_hqueue (settle e (iterate sg array Bc k (init_state sg res array markers)))
               = remove1 e (s_hqueue (iterate sg array Bc k (init_state sg res array markers)))
           \<and> (prod_list (dims array) < 2 ^ 31 \<longrightarrow>
                 sorted_wrt (\<lambda>a b. sint (idx a) < sint (idx b))
                   (s_hqueue (iterate sg array Bc k (init_state sg res array markers)))
                 \<and> hd (filter (\<lambda>x. cost x = cost e)
                        (s_hqueue (iterate sg array Bc k (init_state sg res array markers)))) = e)"
proof -
  let ?st = "iterate sg array Bc k (init_state sg res array markers)"
  let ?q = "s_hqueue ?st"
  obtain e where e: "top ?q = Some e"
    using assms(5) top_None_iff [of ?q] by (cases "top ?q") auto
  have mem: "e \<in> set ?q" and least: "\<forall>x \<in> set ?q. \<not> MarkerInfo_less e x"
    using top_Some [OF e] by simp_all
  have least': "\<forall>x \<in> set ?q. sint (cost e) < sint (cost x)
                  \<or> (cost e = cost x \<and> sint (idx e) \<le> sint (idx x))"
    using least unfolding not_MarkerInfo_less_iff .
  have step: "iterate sg array Bc (Suc k) (init_state sg res array markers) = expand sg array Bc e ?st"
    unfolding iterate_Suc_right by (simp add: e)
  have rem: "s_hqueue (settle e ?st) = remove1 e ?q"
    by (simp add: settle_def pop_def)
  have fifo: "sorted_wrt (\<lambda>a b. sint (idx a) < sint (idx b)) ?q
              \<and> hd (filter (\<lambda>x. cost x = cost e) ?q) = e"
    if small: "prod_list (dims array) < 2 ^ 31"
  proof -
    have "prod_list (dims array) < 2 ^ 32"
      using small by (rule less_trans) simp
    then have "counted sg array ?st"
      using assms(1,2,3,4) by (intro counted_iterate)
    then obtain m where m: "m + card (pending sg array ?st) \<le> prod_list (dims array)"
      "in_push_order m ?q"
      by (auto simp: counted_def)
    have m31: "m \<le> 2 ^ 31"
      using m(1) small by simp
    have idx_small: "unat (idx x) < 2 ^ 31" if "x \<in> set ?q" for x
      using m(2) m31 that by (auto simp: in_push_order_def)
    have "sorted_wrt (\<lambda>a b. unat (idx a) < unat (idx b)) ?q"
      using m(2) by (simp add: in_push_order_def)
    then have "sorted_wrt (\<lambda>a b. sint (idx a) < sint (idx b)) ?q"
    proof (rule sorted_wrt_mono_rel [rotated])
      fix a b
      assume "a \<in> set ?q" "b \<in> set ?q" "unat (idx a) < unat (idx b)"
      then show "sint (idx a) < sint (idx b)"
        using sint_small_less [OF idx_small [of a] idx_small [of b]] by simp
    qed
    moreover have "hd (filter (\<lambda>x. cost x = cost e) ?q) = e"
      using m(2) m31 mem
    proof (rule least_index_is_first)
      show "\<forall>x \<in> set ?q. cost x = cost e \<longrightarrow> sint (idx e) \<le> sint (idx x)"
        using least' by auto
    qed
    ultimately show ?thesis by simp
  qed
  show ?thesis
    using e mem least' step rem fifo by blast
qed

text \<open>
  The intensities \<open>[3, 3, 3]\<close> with the marker 1 at both ends: the two seeds have the same
  priority 1 and the indices 0 and 1; the seed pushed first, at position 0, is popped
  first.
\<close>

theorem pop_least_first_witness:
  "wf_array (filled [3] (0 :: 8 word))
   \<and> wf_array \<lparr>dims = [3], data = [1, 0, 1 :: 8 word]\<rparr>
   \<and> dims (filled [3] (0 :: 8 word)) = dims \<lparr>dims = [3], data = [3, 3, 3 :: 8 word]\<rparr>
   \<and> dims \<lparr>dims = [3], data = [1, 0, 1 :: 8 word]\<rparr> = dims \<lparr>dims = [3], data = [3, 3, 3 :: 8 word]\<rparr>
   \<and> s_hqueue (iterate False \<lparr>dims = [3], data = [3, 3, 3 :: 8 word]\<rparr>
        \<lparr>dims = [3], data = [1, 1, 1]\<rparr> 0
        (init_state False (filled [3] 0) \<lparr>dims = [3], data = [3, 3, 3 :: 8 word]\<rparr>
           \<lparr>dims = [3], data = [1, 0, 1]\<rparr>)) = [MarkerInfo 1 0 [0], MarkerInfo 1 1 [2]]
   \<and> prod_list (dims \<lparr>dims = [3], data = [3, 3, 3 :: 8 word]\<rparr>) < 2 ^ 31
   \<and> top [MarkerInfo 1 0 [0], MarkerInfo 1 1 [2]] = Some (MarkerInfo 1 0 [0])
   \<and> hd (filter (\<lambda>x. cost x = cost (MarkerInfo 1 0 [0])) [MarkerInfo 1 0 [0], MarkerInfo 1 1 [2]])
       = MarkerInfo 1 0 [0]
   \<and> s_hqueue (iterate False \<lparr>dims = [3], data = [3, 3, 3 :: 8 word]\<rparr>
        \<lparr>dims = [3], data = [1, 1, 1]\<rparr> (Suc 0)
        (init_state False (filled [3] 0) \<lparr>dims = [3], data = [3, 3, 3 :: 8 word]\<rparr>
           \<lparr>dims = [3], data = [1, 0, 1]\<rparr>)) = [MarkerInfo 1 1 [2], MarkerInfo 3 2 [1]]"
proof -
  let ?R = "filled [3] (0 :: 8 word)"
  let ?A = "\<lparr>dims = [3], data = [3, 3, 3 :: 8 word]\<rparr>"
  let ?M = "\<lparr>dims = [3], data = [1, 0, 1 :: 8 word]\<rparr>"
  let ?B = "\<lparr>dims = [3], data = [1, 1, 1 :: 8 word]\<rparr>"
  let ?st = "iterate False ?A ?B 0 (init_state False ?R ?A ?M)"
  let ?q = "[MarkerInfo 1 0 [0], MarkerInfo 1 1 [2]]"
  have r: "wf_array ?R" by (rule wf_array_filled)
  have m: "wf_array ?M" by (simp add: wf_array_def)
  have dr: "dims ?R = dims ?A" by (simp add: dims_filled)
  have dm: "dims ?M = dims ?A" by simp
  have q: "s_hqueue ?st = ?q" by code_simp
  then have ne: "s_hqueue ?st \<noteq> []" by simp
  have n: "prod_list (dims ?A) < 2 ^ 31" by simp
  have t: "top ?q = Some (MarkerInfo 1 0 [0])" by code_simp
  have nxt: "s_hqueue (iterate False ?A ?B (Suc 0) (init_state False ?R ?A ?M))
             = [MarkerInfo 1 1 [2], MarkerInfo 3 2 [1]]"
    by code_simp
  from pop_least_first [OF r m dr dm ne]
  obtain e where "top (s_hqueue ?st) = Some e"
    and "prod_list (dims ?A) < 2 ^ 31 \<longrightarrow>
           sorted_wrt (\<lambda>a b. sint (idx a) < sint (idx b)) (s_hqueue ?st)
           \<and> hd (filter (\<lambda>x. cost x = cost e) (s_hqueue ?st)) = e"
    by blast
  then have "e = MarkerInfo 1 0 [0]" and "hd (filter (\<lambda>x. cost x = cost e) ?q) = e"
    using q t n by simp_all
  then have "hd (filter (\<lambda>x. cost x = cost (MarkerInfo 1 0 [0])) ?q) = MarkerInfo 1 0 [0]"
    by simp
  then show ?thesis
    using r m dr dm q n t nxt by simp
qed

end
